theory Spec2Isabelle
  imports Main "HOL-Library.Monad_Syntax" "HOL-Library.Sublist"
begin

section \<open>Comment stripper\<close>

text \<open>
  The source text is a JavaScript string; it is modelled as a list of characters, one
  per code unit. The characters the scanner compares against are named here.
\<close>

abbreviation backslash :: char where "backslash \<equiv> CHR 0x5C"
abbreviation dquote :: char where "dquote \<equiv> CHR 0x22"
abbreviation squote :: char where "squote \<equiv> CHR 0x27"
abbreviation newline :: char where "newline \<equiv> CHR 0x0A"
abbreviation space :: char where "space \<equiv> CHR 0x20"
abbreviation slash :: char where "slash \<equiv> CHR 0x2F"
abbreviation star :: char where "star \<equiv> CHR 0x2A"

subsection \<open>strip\<close>

text \<open>
  The inner loop of the multi-line branch of \<open>CommentStripper.strip\<close>, entered after
  the opening delimiter has been skipped. It returns the characters appended to
  \<open>result\<close> and the text left after the loop.
\<close>

fun strip_block :: "string \<Rightarrow> string \<times> string" where
  "strip_block [] = ([], [])"
| "strip_block [c] = ([if c = newline then newline else space], [])"
| "strip_block (c # d # cs) =
     (if c = star \<and> d = slash
      then ([if c = newline then newline else space, space], cs)
      else (case strip_block (d # cs) of
              (out, rest) \<Rightarrow> ((if c = newline then newline else space) # out, rest)))"

text \<open>
  The inner loop of the single-line branch together with the conditional that follows
  it ("include the newline").
\<close>

fun strip_line :: "string \<Rightarrow> string \<times> string" where
  "strip_line [] = ([], [])"
| "strip_line (c # cs) =
     (if c = newline then ([newline], cs)
      else (case strip_line cs of (out, rest) \<Rightarrow> (space # out, rest)))"

lemma strip_block_rest_length: "length (snd (strip_block cs)) \<le> length cs"
  by (induction cs rule: strip_block.induct) (auto split: prod.splits)

lemma strip_line_rest_length: "length (snd (strip_line cs)) \<le> length cs"
  by (induction cs rule: strip_line.induct) (auto split: prod.splits)

text \<open>
  The main loop of \<open>strip\<close>. The argument list is the text from index \<open>i\<close> on, the two
  flags are \<open>inString\<close> and \<open>inChar\<close>, and the value is what the loop appends to
  \<open>result\<close> from there. \<open>take 1 cs\<close> is \<open>next || ''\<close>.
\<close>

function strip_from :: "bool \<Rightarrow> bool \<Rightarrow> string \<Rightarrow> string" where
  "strip_from inString inChar [] = []"
| "strip_from inString inChar (c # cs) =
     (if (inString \<or> inChar) \<and> c = backslash
        then c # take 1 cs @ strip_from inString inChar (drop 1 cs)
      else if \<not> inChar \<and> c = dquote
        then c # strip_from (\<not> inString) inChar cs
      else if \<not> inString \<and> c = squote
        then c # strip_from inString (\<not> inChar) cs
      else if inString \<or> inChar
        then c # strip_from inString inChar cs
      else if c = slash \<and> take 1 cs = [star]
        then space # fst (strip_block (drop 1 cs))
               @ strip_from inString inChar (snd (strip_block (drop 1 cs)))
      else if c = slash \<and> take 1 cs = [slash]
        then space # fst (strip_line (drop 1 cs))
               @ strip_from inString inChar (snd (strip_line (drop 1 cs)))
      else c # strip_from inString inChar cs)"
  by pat_completeness auto
termination
proof (relation "measure (\<lambda>(inString, inChar, cs). length cs)")
  fix inString inChar :: bool and c :: char and cs :: string
  have "length (snd (strip_block (drop 1 cs))) \<le> length (drop 1 cs)"
    by (rule strip_block_rest_length)
  then show "((inString, inChar, snd (strip_block (drop 1 cs))), (inString, inChar, c # cs))
      \<in> measure (\<lambda>(inString, inChar, cs). length cs)"
    by simp
  have "length (snd (strip_line (drop 1 cs))) \<le> length (drop 1 cs)"
    by (rule strip_line_rest_length)
  then show "((inString, inChar, snd (strip_line (drop 1 cs))), (inString, inChar, c # cs))
      \<in> measure (\<lambda>(inString, inChar, cs). length cs)"
    by simp
qed auto

definition strip :: "string \<Rightarrow> string" where
  "strip code = strip_from False False code"

subsection \<open>isInComment\<close>

text \<open>
  The two inner loops of \<open>CommentStripper.isInComment\<close>: the number of characters the
  "find end of comment" loop advances over (the closing delimiter included, or the whole
  rest when the comment is not closed), and the number of characters the "find end of
  line" loop advances over (the newline excluded).
\<close>

fun block_end :: "string \<Rightarrow> nat" where
  "block_end [] = 0"
| "block_end [c] = 1"
| "block_end (c # d # cs) = (if c = star \<and> d = slash then 2 else Suc (block_end (d # cs)))"

fun line_end :: "string \<Rightarrow> nat" where
  "line_end [] = 0"
| "line_end (c # cs) = (if c = newline then 0 else Suc (line_end cs))"

text \<open>
  The main loop. \<open>i\<close> is the loop index and \<open>cs\<close> the text from index \<open>i\<close> on, so that
  \<open>code[i]\<close> is the head of \<open>cs\<close> and is undefined when \<open>cs\<close> is empty (the position may lie
  beyond the end of the text); an undefined character equals none of the characters it is
  compared with.
\<close>

function isInComment_from :: "nat \<Rightarrow> nat \<Rightarrow> string \<Rightarrow> bool \<Rightarrow> bool \<Rightarrow> bool" where
  "isInComment_from position i cs inString inChar =
     (if \<not> i < position then False
      else (case cs of
        [] \<Rightarrow> isInComment_from position (i + 1) [] inString inChar
      | c # rest \<Rightarrow>
          if (inString \<or> inChar) \<and> c = backslash
            then isInComment_from position (i + 2) (drop 1 rest) inString inChar
          else if \<not> inChar \<and> c = dquote
            then isInComment_from position (i + 1) rest (\<not> inString) inChar
          else if \<not> inString \<and> c = squote
            then isInComment_from position (i + 1) rest inString (\<not> inChar)
          else if inString \<or> inChar
            then isInComment_from position (i + 1) rest inString inChar
          else if c = slash \<and> take 1 rest = [star]
            then (let commentStart = i;
                      n = block_end (drop 1 rest);
                      j = i + 2 + n
                  in if position \<ge> commentStart \<and> position < j then True
                     else isInComment_from position j (drop n (drop 1 rest)) inString inChar)
          else if c = slash \<and> take 1 rest = [slash]
            then (let commentStart = i;
                      n = line_end (drop 1 rest);
                      j = i + 2 + n;
                      after = drop n (drop 1 rest)
                  in if position \<ge> commentStart \<and> position < j then True
                     else if after \<noteq> []
                       then isInComment_from position (j + 1) (drop 1 after) inString inChar
                       else isInComment_from position j after inString inChar)
          else isInComment_from position (i + 1) rest inString inChar))"
  by pat_completeness auto
termination
  by (relation "measure (\<lambda>(position, i, cs, inString, inChar). position - i)") auto

definition isInComment :: "string \<Rightarrow> nat \<Rightarrow> bool" where
  "isInComment code position = isInComment_from position 0 code False False"

text \<open>
  The lexical shape of a text, used to state properties of \<open>isInComment\<close>. \<open>lit_body q\<close>
  holds of the inside of a literal quoted with \<open>q\<close>: a sequence of escape pairs (a
  backslash and the character after it) and of characters other than the backslash and
  the quote.
\<close>

fun lit_body :: "char \<Rightarrow> string \<Rightarrow> bool" where
  "lit_body q [] = True"
| "lit_body q [c] = (c \<noteq> backslash \<and> c \<noteq> q)"
| "lit_body q (c # d # cs) =
     (if c = backslash then lit_body q cs else c \<noteq> q \<and> lit_body q (d # cs))"

text \<open>
  A text is a sequence of tokens: a character of code, a string literal, a character
  literal, a closed block comment and a line comment with its newline, each given by
  what it holds between its delimiters. \<open>render\<close> is the text of a sequence of tokens. A
  sequence is well formed when a character of code is not a quote, the inside of a
  literal is a literal body, the inside of a block comment does not contain the closing
  delimiter, the inside of a line comment does not contain a newline, and a slash that
  is code is not followed by a slash or a star (it would open a comment).
\<close>

datatype token =
    Code char
  | StringLit string
  | CharLit string
  | BlockComment string
  | LineComment string

fun render_token :: "token \<Rightarrow> string" where
  "render_token (Code c) = [c]"
| "render_token (StringLit b) = dquote # b @ [dquote]"
| "render_token (CharLit b) = squote # b @ [squote]"
| "render_token (BlockComment b) = slash # star # b @ [star, slash]"
| "render_token (LineComment b) = slash # slash # b @ [newline]"

definition render :: "token list \<Rightarrow> string" where
  "render ts = concat (map render_token ts)"

fun no_close :: "string \<Rightarrow> bool" where
  "no_close (c # d # cs) = (\<not> (c = star \<and> d = slash) \<and> no_close (d # cs))"
| "no_close cs = True"

fun wf_token :: "token \<Rightarrow> bool" where
  "wf_token (Code c) = (c \<noteq> dquote \<and> c \<noteq> squote)"
| "wf_token (StringLit b) = lit_body dquote b"
| "wf_token (CharLit b) = lit_body squote b"
| "wf_token (BlockComment b) = no_close b"
| "wf_token (LineComment b) = (newline \<notin> set b)"

fun wf_tokens :: "token list \<Rightarrow> bool" where
  "wf_tokens [] = True"
| "wf_tokens (t # ts) =
     (wf_token t
      \<and> (t = Code slash \<longrightarrow> take 1 (render ts) \<noteq> [slash] \<and> take 1 (render ts) \<noteq> [star])
      \<and> wf_tokens ts)"


section \<open>Pin usage tracker\<close>

text \<open>
  The usage kinds are the strings \<open>analyzePinUsage\<close> writes into the \<open>type\<close> field. A
  usage is the object pushed there; its \<open>function\<close> field is called \<open>func\<close> here, and
  the \<open>pin\<close> field of a pin record \<open>rpin\<close>.
\<close>

datatype usage_kind =
    digital_output | digital_input | pwm | analog_input | interrupt
  | i2c_sda | i2c_scl | spi_ss | spi_mosi | spi_miso | spi_sck | serial_rx | serial_tx

record pin_usage =
  pin :: nat
  type :: usage_kind
  func :: string
  line :: nat
  offset :: nat

datatype pin_status = Valid | Warning | Conflict

text \<open>
  The message of a pin record is one of four templates, each with the pin number
  inserted, or the empty string:
  \<^item> \<open>InputAndOutput\<close>: "Pin p used as both input and output";
  \<^item> \<open>InterruptAndWrite\<close>: "Pin p used for interrupt and digitalWrite - may cause issues";
  \<^item> \<open>ProtocolAndDigital\<close>: "Pin p used for both protocol (I2C/SPI) and digital I/O";
  \<^item> \<open>SerialAndDigital\<close>: "Pin p used for both Serial and digital I/O - disable Serial if
    using pin".
  The field \<open>pinLabel\<close>, which \<open>getPinLabel\<close> computes from the pin number alone, is left
  out of the record.
\<close>

datatype pin_message =
  NoMessage | InputAndOutput | InterruptAndWrite | ProtocolAndDigital | SerialAndDigital

record pin_record =
  rpin :: nat
  usages :: "pin_usage list"
  status :: pin_status
  message :: pin_message
  primaryType :: usage_kind

text \<open>
  \<open>this.pinMap\<close> is a JavaScript \<open>Map\<close>, which iterates in the order of first insertion:
  an association list with one entry per pin.
\<close>

type_synonym pin_map = "(nat \<times> pin_usage list) list"

definition map_has :: "pin_map \<Rightarrow> nat \<Rightarrow> bool" where
  "map_has m p = (p \<in> set (map fst m))"

text \<open>\<open>this.pinMap.get(p).push(u)\<close>: the array stored under \<open>p\<close> grows by \<open>u\<close>.\<close>

fun map_push :: "pin_map \<Rightarrow> nat \<Rightarrow> pin_usage \<Rightarrow> pin_map" where
  "map_push [] p u = []"
| "map_push ((q, us) # m) p u =
     (if q = p then (q, us @ [u]) # m else (q, us) # map_push m p u)"

text \<open>The body of the loop of \<open>buildPinMap\<close>.\<close>

definition add_usage :: "pin_map \<Rightarrow> pin_usage \<Rightarrow> pin_map" where
  "add_usage m u =
     (let m' = (if \<not> map_has m (pin u) then m @ [(pin u, [])] else m)
      in map_push m' (pin u) u)"

text \<open>
  The body of the loop of \<open>detectConflicts\<close> up to the \<open>push\<close>: the status and the message
  of one entry. The four checks are four \<open>if\<close> statements in a row, each assigning
  \<open>status\<close> and \<open>message\<close>.
\<close>

definition classify :: "pin_usage list \<Rightarrow> pin_status \<times> pin_message" where
  "classify us =
     (let types = map type us;
          s0 = (Valid, NoMessage)
      in if length us > 1 then
           (let hasOutput = (digital_output \<in> set types \<or> pwm \<in> set types);
                hasInput = (digital_input \<in> set types \<or> analog_input \<in> set types);
                s1 = (if hasOutput \<and> hasInput then (Conflict, InputAndOutput) else s0);
                s2 = (if interrupt \<in> set types \<and> digital_output \<in> set types
                      then (Conflict, InterruptAndWrite) else s1);
                s3 = (if (i2c_sda \<in> set types \<or> i2c_scl \<in> set types
                          \<or> spi_ss \<in> set types \<or> spi_mosi \<in> set types
                          \<or> spi_miso \<in> set types \<or> spi_sck \<in> set types)
                         \<and> (digital_output \<in> set types \<or> digital_input \<in> set types)
                      then (Conflict, ProtocolAndDigital) else s2);
                s4 = (if (serial_rx \<in> set types \<or> serial_tx \<in> set types)
                         \<and> (digital_output \<in> set types \<or> digital_input \<in> set types)
                      then (Warning, SerialAndDigital) else s3)
            in s4)
         else s0)"

text \<open>
  \<open>detectConflicts\<close> over the entries of the map. Reading \<open>usages[0].type\<close> of an empty
  array raises a TypeError.
\<close>

datatype js_error = TypeError

fun detectConflicts :: "pin_map \<Rightarrow> js_error + pin_record list" where
  "detectConflicts [] = Inr []"
| "detectConflicts ((p, us) # m) =
     (case us of
        [] \<Rightarrow> Inl TypeError
      | u # _ \<Rightarrow>
          (case detectConflicts m of
             Inl e \<Rightarrow> Inl e
           | Inr annotatedMap \<Rightarrow>
               Inr (\<lparr>rpin = p, usages = us, status = fst (classify us),
                      message = snd (classify us), primaryType = type u\<rparr> # annotatedMap)))"

definition buildPinMap :: "pin_usage list \<Rightarrow> js_error + pin_record list" where
  "buildPinMap us = detectConflicts (foldl add_usage [] us)"

text \<open>
  The conditions of the specification on the kinds of one pin: the three conflict
  conditions and the warning condition.
\<close>

definition conflict_condition :: "usage_kind set \<Rightarrow> bool" where
  "conflict_condition K =
     (((digital_output \<in> K \<or> pwm \<in> K) \<and> (digital_input \<in> K \<or> analog_input \<in> K))
      \<or> (interrupt \<in> K \<and> digital_output \<in> K)
      \<or> ((i2c_sda \<in> K \<or> i2c_scl \<in> K \<or> spi_ss \<in> K \<or> spi_mosi \<in> K
           \<or> spi_miso \<in> K \<or> spi_sck \<in> K)
          \<and> (digital_output \<in> K \<or> digital_input \<in> K)))"

definition warning_condition :: "usage_kind set \<Rightarrow> bool" where
  "warning_condition K =
     ((serial_rx \<in> K \<or> serial_tx \<in> K) \<and> (digital_output \<in> K \<or> digital_input \<in> K))"

text \<open>The kinds of the usages of pin \<open>p\<close> in a sequence of usages.\<close>

definition kinds_of :: "pin_usage list \<Rightarrow> nat \<Rightarrow> usage_kind set" where
  "kinds_of us p = set (map type (filter (\<lambda>u. pin u = p) us))"

text \<open>
  The invariant of the loop of \<open>buildPinMap\<close>: after the usages \<open>us\<close> the map has one
  entry per pin of \<open>us\<close>, holding the usages of that pin in their order.
\<close>

definition grouped :: "pin_usage list \<Rightarrow> pin_map \<Rightarrow> bool" where
  "grouped us m = (distinct (map fst m) \<and> pin ` set us \<subseteq> fst ` set m
     \<and> (\<forall>(p, g) \<in> set m. g = filter (\<lambda>u. pin u = p) us \<and> g \<noteq> []))"

text \<open>
  Three usages of pin 0, as \<open>analyzePinUsage\<close> produces them for a sketch that calls
  \<open>pinMode(0, OUTPUT)\<close>, \<open>pinMode(0, INPUT)\<close> and \<open>Serial.begin(\<close>.
\<close>

abbreviation serial_pin_usages :: "pin_usage list" where
  "serial_pin_usages \<equiv>
     [\<lparr>pin = 0, type = digital_output, func = ''pinMode'', line = 0, offset = 0\<rparr>,
      \<lparr>pin = 0, type = digital_input, func = ''pinMode'', line = 1, offset = 20\<rparr>,
      \<lparr>pin = 0, type = serial_rx, func = ''Serial'', line = 2, offset = 40\<rparr>]"

section \<open>Pattern matching on text\<close>

text \<open>
  The character classes of the regular expressions of the source, on the characters a
  \<open>char\<close> can hold: \<open>\s\<close>, \<open>\d\<close>, \<open>[0-9A-Fa-f]\<close> and \<open>\w\<close>.
\<close>

definition is_space :: "char \<Rightarrow> bool" where
  "is_space c =
     (c \<in> set [CHR 0x09, CHR 0x0A, CHR 0x0B, CHR 0x0C, CHR 0x0D, CHR 0x20, CHR 0xA0])"

definition is_digit :: "char \<Rightarrow> bool" where
  "is_digit c = (c \<in> set ''0123456789'')"

definition is_hex :: "char \<Rightarrow> bool" where
  "is_hex c = (c \<in> set ''0123456789ABCDEFabcdef'')"

definition is_word :: "char \<Rightarrow> bool" where
  "is_word c =
     (c \<in> set ''ABCDEFGHIJKLMNOPQRSTUVWXYZabcdefghijklmnopqrstuvwxyz0123456789_'')"

fun starts_with :: "string \<Rightarrow> string \<Rightarrow> bool" where
  "starts_with cs [] = True"
| "starts_with [] (p # ps) = False"
| "starts_with (c # cs) (p # ps) = (c = p \<and> starts_with cs ps)"

text \<open>
  A pattern is matched at the head of a text by consuming pieces from the left. \<open>lit\<close>
  consumes a fixed string and gives the rest of the text, or fails. A repetition of a
  character class consumes the longest run (\<open>takeWhile\<close>, \<open>dropWhile\<close>): in every pattern below
  the piece after a repetition starts with a character outside the class, so the
  backtracking matcher of JavaScript, which tries the longest run first and shorter runs
  after a failure, succeeds with the longest run or not at all.
\<close>

definition lit :: "string \<Rightarrow> string \<Rightarrow> string option" where
  "lit p cs = (if starts_with cs p then Some (drop (length p) cs) else None)"

text \<open>The text consumed between a text and what is left of it: \<open>match[0]\<close>.\<close>

definition consumed :: "string \<Rightarrow> string \<Rightarrow> string" where
  "consumed cs rest = take (length cs - length rest) cs"

text \<open>
  \<open>while ((match = pattern.exec(text)) !== null)\<close> for a pattern with the \<open>g\<close> flag: the
  matches from left to right, each search starting where the previous match ended. A
  match is the index, \<open>match[0]\<close> and the groups. \<open>cs\<close> is the text from index \<open>i\<close> on. All
  patterns used with it consume at least one character.
\<close>

fun exec_all :: "(string \<Rightarrow> (string \<times> 'g) option) \<Rightarrow> nat \<Rightarrow> string
    \<Rightarrow> (nat \<times> string \<times> 'g) list" where
  "exec_all pat i [] = []"
| "exec_all pat i (c # cs) =
     (case pat (c # cs) of
        None \<Rightarrow> exec_all pat (i + 1) cs
      | Some (m0, g) \<Rightarrow> (i, m0, g) # exec_all pat (i + length m0) (drop (length m0 - 1) cs))"

text \<open>
  \<open>pattern.test(text)\<close> and \<open>text.match(pattern)\<close> for a pattern without the \<open>g\<close> flag: the
  leftmost match, with its index.
\<close>

fun find_first :: "(string \<Rightarrow> 'm option) \<Rightarrow> nat \<Rightarrow> string \<Rightarrow> (nat \<times> 'm) option" where
  "find_first pat i [] = map_option (Pair i) (pat [])"
| "find_first pat i (c # cs) =
     (case pat (c # cs) of
        Some m \<Rightarrow> Some (i, m)
      | None \<Rightarrow> find_first pat (i + 1) cs)"

text \<open>\<open>hay.indexOf(needle)\<close>: the index of the first occurrence, or -1.\<close>

fun index_from :: "nat \<Rightarrow> string \<Rightarrow> string \<Rightarrow> int" where
  "index_from i [] needle = (if needle = [] then int i else - 1)"
| "index_from i (c # cs) needle =
     (if starts_with (c # cs) needle then int i else index_from (i + 1) cs needle)"

definition indexOf :: "string \<Rightarrow> string \<Rightarrow> int" where
  "indexOf hay needle = index_from 0 hay needle"

text \<open>
  \<open>parseInt\<close> on strings without leading white space or sign, which is what the patterns
  capture: with radix 16 the leading hexadecimal digits, without a radix the hexadecimal
  digits after a prefix \<open>0x\<close> or \<open>0X\<close> or else the leading decimal digits. \<open>None\<close> is NaN. The
  value is an unbounded natural number; JavaScript rounds it to a double, which does not
  change the result of the comparisons the validators make (with 255, with 0x7F, with the
  members of small sets).
\<close>

definition digit_val :: "char \<Rightarrow> nat" where
  "digit_val c =
     (if c \<in> set ''0123456789'' then of_char c - 48
      else if c \<in> set ''ABCDEF'' then of_char c - 55
      else of_char c - 87)"

definition digits_val :: "nat \<Rightarrow> string \<Rightarrow> nat" where
  "digits_val radix ds = foldl (\<lambda>n c. radix * n + digit_val c) 0 ds"

definition parseInt16 :: "string \<Rightarrow> nat option" where
  "parseInt16 s =
     (let s' = (if starts_with s ''0x'' \<or> starts_with s ''0X'' then drop 2 s else s);
          ds = takeWhile is_hex s'
      in if ds = [] then None else Some (digits_val 16 ds))"

definition parseInt :: "string \<Rightarrow> nat option" where
  "parseInt s =
     (if starts_with s ''0x'' \<or> starts_with s ''0X'' then parseInt16 s
      else (let ds = takeWhile is_digit s
            in if ds = [] then None else Some (digits_val 10 ds)))"

text \<open>Comparisons of a number that may be NaN: every comparison with NaN is false.\<close>

definition num_between :: "nat option \<Rightarrow> nat \<Rightarrow> nat \<Rightarrow> bool" where
  "num_between v lo hi = (case v of None \<Rightarrow> False | Some n \<Rightarrow> lo \<le> n \<and> n \<le> hi)"

definition num_greater :: "nat option \<Rightarrow> nat \<Rightarrow> bool" where
  "num_greater v k = (case v of None \<Rightarrow> False | Some n \<Rightarrow> n > k)"

definition num_in :: "nat option \<Rightarrow> nat list \<Rightarrow> bool" where
  "num_in v ks = (case v of None \<Rightarrow> False | Some n \<Rightarrow> n \<in> set ks)"

section \<open>Diagnostic provider\<close>

text \<open>
  A diagnostic as the validators build it, its fields prefixed with \<open>d_\<close> (those of a
  position with \<open>p_\<close>, of a range with \<open>r_\<close>, of a board with \<open>b_\<close>). The message is left out: it is a fixed text
  with numbers of the match inserted and plays no part in what follows. The document
  enters through \<open>document.positionAt\<close>, a function from offsets to positions.
\<close>

datatype DiagnosticSeverity = DS_Error | DS_Warning | DS_Information | DS_Hint

record Position =
  p_line :: nat
  p_character :: nat

record Range =
  r_start :: Position
  r_end :: Position

record Diagnostic =
  d_severity :: DiagnosticSeverity
  d_range :: Range
  d_source :: string
  d_code :: string

text \<open>
  The range every validator below builds: from the position of an offset to \<open>len\<close>
  characters further on the same line.
\<close>

definition range_at :: "(int \<Rightarrow> Position) \<Rightarrow> int \<Rightarrow> nat \<Rightarrow> Range" where
  "range_at positionAt i len =
     (let pos = positionAt i
      in \<lparr>r_start = \<lparr>p_line = p_line pos, p_character = p_character pos\<rparr>,
          r_end = \<lparr>p_line = p_line pos, p_character = p_character pos + len\<rparr>\<rparr>)"

text \<open>
  The hardware database the provider is constructed with, reduced to the board that is
  loaded, if any, and its pin lists.
\<close>

record Board =
  b_name :: string
  b_digital :: "nat list"
  b_analog :: "nat list"
  b_pwm :: "nat list"
  b_interrupts :: "nat list"

record HardwareDatabase =
  currentBoard :: "Board option"

subsection \<open>validatePWMUsage\<close>

text \<open>The pattern \<open>/analogWrite\s*\(\s*(\d+)\s*,\s*(\w+)\s*\)/\<close> with its two groups.\<close>

definition pwmPattern :: "string \<Rightarrow> (string \<times> string \<times> string) option" where
  "pwmPattern cs =
     do {
       r1 \<leftarrow> lit ''analogWrite'' cs;
       r2 \<leftarrow> lit ''('' (dropWhile is_space r1);
       let r3 = dropWhile is_space r2;
       let g1 = takeWhile is_digit r3;
       r4 \<leftarrow> (if g1 = [] then None else Some (dropWhile is_digit r3));
       r5 \<leftarrow> lit '','' (dropWhile is_space r4);
       let r6 = dropWhile is_space r5;
       let g2 = takeWhile is_word r6;
       r7 \<leftarrow> (if g2 = [] then None else Some (dropWhile is_word r6));
       r8 \<leftarrow> lit '')'' (dropWhile is_space r7);
       Some (consumed cs r8, g1, g2)
     }"

definition pwmPins :: "nat list" where
  "pwmPins = [3, 5, 6, 9, 10, 11]"

text \<open>The body of the loop of \<open>validatePWMUsage\<close>: the diagnostics pushed for one match.\<close>

definition pwm_match :: "(int \<Rightarrow> Position) \<Rightarrow> nat \<times> string \<times> string \<times> string
    \<Rightarrow> Diagnostic list" where
  "pwm_match positionAt m =
     (case m of (index, m0, g1, valueStr) \<Rightarrow>
        let pin = parseInt g1;
            val = (if valueStr = ''HIGH'' then Some 255
                   else if valueStr = ''LOW'' then Some 0 else parseInt valueStr);
            pinIndex = int index + indexOf m0 g1;
            valueIndex = int index + indexOf m0 valueStr
        in (if \<not> num_in pin pwmPins
            then [\<lparr>d_severity = DS_Error, d_range = range_at positionAt pinIndex (length g1),
                   d_source = ''Sentinel'', d_code = ''no-pwm-support''\<rparr>]
            else [])
           @ (if num_greater val 255
              then [\<lparr>d_severity = DS_Error, d_range = range_at positionAt valueIndex (length valueStr),
                     d_source = ''Sentinel'', d_code = ''pwm-value-overflow''\<rparr>]
              else []))"

text \<open>
  \<open>validatePWMUsage\<close> is a method of the provider, which holds the hardware database in
  \<open>this.hardwareDB\<close>; the provider's state is the first argument.
\<close>

definition validatePWMUsage :: "HardwareDatabase \<Rightarrow> string \<Rightarrow> (int \<Rightarrow> Position)
    \<Rightarrow> Diagnostic list" where
  "validatePWMUsage hardwareDB text positionAt =
     concat (map (pwm_match positionAt) (exec_all pwmPattern 0 text))"

subsection \<open>validateI2CUsage\<close>

text \<open>The pattern \<open>/(?:beginTransmission|requestFrom)\s*\(\s*0x([0-9A-Fa-f]+)/\<close>.\<close>

definition addressPattern :: "string \<Rightarrow> (string \<times> string) option" where
  "addressPattern cs =
     do {
       r1 \<leftarrow> (case lit ''beginTransmission'' cs of
               Some r \<Rightarrow> Some r
             | None \<Rightarrow> lit ''requestFrom'' cs);
       r2 \<leftarrow> lit ''('' (dropWhile is_space r1);
       r3 \<leftarrow> lit ''0x'' (dropWhile is_space r2);
       let g1 = takeWhile is_hex r3;
       r4 \<leftarrow> (if g1 = [] then None else Some (dropWhile is_hex r3));
       Some (consumed cs r4, g1)
     }"

text \<open>
  The address loop of \<open>validateI2CUsage\<close> over the matches that are left, with the set
  \<open>usedAddresses\<close>; a \<open>continue\<close> is the loop on the remaining matches.
\<close>

fun address_loop :: "string \<Rightarrow> (int \<Rightarrow> Position) \<Rightarrow> nat option set
    \<Rightarrow> (nat \<times> string \<times> string) list \<Rightarrow> Diagnostic list" where
  "address_loop text positionAt usedAddresses [] = []"
| "address_loop text positionAt usedAddresses ((index, m0, g1) # ms) =
     (if isInComment text index then address_loop text positionAt usedAddresses ms
      else
        let address = parseInt16 g1;
            hexStart = indexOf m0 (''0x'' @ g1);
            addressIndex = int index + hexStart;
            r = range_at positionAt addressIndex (length (''0x'' @ g1))
        in if num_between address 0x00 0x07
             then \<lparr>d_severity = DS_Error, d_range = r, d_source = ''Sentinel'',
                   d_code = ''reserved-i2c-address''\<rparr>
                  # address_loop text positionAt usedAddresses ms
           else if num_between address 0x78 0x7F
             then \<lparr>d_severity = DS_Error, d_range = r, d_source = ''Sentinel'',
                   d_code = ''reserved-i2c-address''\<rparr>
                  # address_loop text positionAt usedAddresses ms
           else if num_greater address 0x7F
             then \<lparr>d_severity = DS_Error, d_range = r, d_source = ''Sentinel'',
                   d_code = ''invalid-i2c-address''\<rparr>
                  # address_loop text positionAt usedAddresses ms
           else (if address \<in> usedAddresses
                 then [\<lparr>d_severity = DS_Information, d_range = r, d_source = ''Sentinel'',
                        d_code = ''duplicate-i2c-address''\<rparr>]
                 else [])
                @ address_loop text positionAt (insert address usedAddresses) ms)"

text \<open>
  The patterns \<open>/Wire\.(?:beginTransmission|requestFrom|write|read)/\<close> and
  \<open>/Wire\.begin\s*\(/\<close>; both give \<open>match[0]\<close>.
\<close>

definition wireUsePattern :: "string \<Rightarrow> string option" where
  "wireUsePattern cs =
     do {
       r1 \<leftarrow> lit ''Wire.'' cs;
       r2 \<leftarrow> (case lit ''beginTransmission'' r1 of
               Some r \<Rightarrow> Some r
             | None \<Rightarrow>
                 (case lit ''requestFrom'' r1 of
                    Some r \<Rightarrow> Some r
                  | None \<Rightarrow>
                      (case lit ''write'' r1 of
                         Some r \<Rightarrow> Some r
                       | None \<Rightarrow> lit ''read'' r1)));
       Some (consumed cs r2)
     }"

definition wireBeginPattern :: "string \<Rightarrow> string option" where
  "wireBeginPattern cs =
     do {
       r1 \<leftarrow> lit ''Wire.begin'' cs;
       r2 \<leftarrow> lit ''('' (dropWhile is_space r1);
       Some (consumed cs r2)
     }"

text \<open>The check that follows the address loop: the diagnostics it pushes.\<close>

definition wire_begin_check :: "string \<Rightarrow> (int \<Rightarrow> Position) \<Rightarrow> Diagnostic list" where
  "wire_begin_check text positionAt =
     (let usesWire = (find_first wireUsePattern 0 text \<noteq> None);
          hasWireBegin = (find_first wireBeginPattern 0 text \<noteq> None)
      in if usesWire \<and> \<not> hasWireBegin then
           (case find_first wireUsePattern 0 text of
              None \<Rightarrow> []
            | Some (i, wireMatch) \<Rightarrow>
                let wireIndex = indexOf text wireMatch
                in [\<lparr>d_severity = DS_Error,
                      d_range = range_at positionAt wireIndex (length wireMatch),
                      d_source = ''Sentinel'', d_code = ''missing-wire-begin''\<rparr>])
         else [])"

text \<open>
  \<open>validateI2CUsage\<close> pushes onto the array \<open>diagnostics\<close> of its caller; the value is the
  array afterwards.
\<close>

definition validateI2CUsage :: "string \<Rightarrow> (int \<Rightarrow> Position) \<Rightarrow> Diagnostic list
    \<Rightarrow> Diagnostic list" where
  "validateI2CUsage text positionAt diagnostics =
     diagnostics
     @ address_loop text positionAt {} (exec_all addressPattern 0 text)
     @ wire_begin_check text positionAt"

subsection \<open>validateI2CUsage of the older provider\<close>

text \<open>
  The repository holds a second, older copy of the provider (source name
  \<open>OrbitIDE Embedded LSP\<close>), whose \<open>validateI2CUsage\<close> differs; its functions carry the
  suffix \<open>_orbit\<close> here. It builds ranges with \<open>getRange\<close> from a line, a start character and
  a length.
\<close>

definition getRange :: "nat \<Rightarrow> nat \<Rightarrow> nat \<Rightarrow> Range" where
  "getRange ln startChar len =
     \<lparr>r_start = \<lparr>p_line = ln, p_character = startChar\<rparr>,
      r_end = \<lparr>p_line = ln, p_character = startChar + len\<rparr>\<rparr>"

definition num_less :: "nat option \<Rightarrow> nat \<Rightarrow> bool" where
  "num_less v k = (case v of None \<Rightarrow> False | Some n \<Rightarrow> n < k)"

text \<open>
  \<open>address.toString(16)\<close>: the digits of a number in base 16, in lower case; \<open>NaN\<close> for NaN.
\<close>

fun hex_lower :: "nat \<Rightarrow> string" where
  "hex_lower n =
     (if n < 16 then [''0123456789abcdef'' ! n]
      else hex_lower (n div 16) @ [''0123456789abcdef'' ! (n mod 16)])"

definition number_toString16 :: "nat option \<Rightarrow> string" where
  "number_toString16 v = (case v of None \<Rightarrow> ''NaN'' | Some n \<Rightarrow> hex_lower n)"

text \<open>The pattern \<open>/(?:beginTransmission|requestFrom|write|read)/\<close>.\<close>

definition wireWordPattern :: "string \<Rightarrow> string option" where
  "wireWordPattern cs =
     do {
       r \<leftarrow> (case lit ''beginTransmission'' cs of
               Some r \<Rightarrow> Some r
             | None \<Rightarrow>
                 (case lit ''requestFrom'' cs of
                    Some r \<Rightarrow> Some r
                  | None \<Rightarrow>
                      (case lit ''write'' cs of
                         Some r \<Rightarrow> Some r
                       | None \<Rightarrow> lit ''read'' cs)));
       Some (consumed cs r)
     }"

text \<open>
  The address loop of the older copy. The line of a match is the number of newlines
  before it. The range check comes first and ends the iteration. \<open>commonAddresses\<close> is
  the object of that name of the I2C protocol record, from keys such as \<open>0x50\<close> to device
  names; a device name is used when it is a non-empty string.
\<close>

fun address_loop_orbit :: "(string \<rightharpoonup> string) \<Rightarrow> string \<Rightarrow> nat option set
    \<Rightarrow> (nat \<times> string \<times> string) list \<Rightarrow> Diagnostic list" where
  "address_loop_orbit commonAddresses text usedAddresses [] = []"
| "address_loop_orbit commonAddresses text usedAddresses ((index, m0, g1) # ms) =
     (let address = parseInt16 g1;
          ln = length (filter (\<lambda>c. c = newline) (take index text));
          r = getRange ln index (length m0)
      in if num_less address 8 \<or> num_greater address 119
           then \<lparr>d_severity = DS_Error, d_range = r, d_source = ''OrbitIDE Embedded LSP'',
                 d_code = ''invalid-i2c-address''\<rparr>
                # address_loop_orbit commonAddresses text usedAddresses ms
         else
           (if num_in address [0x00, 0x78, 0x79, 0x7A, 0x7B, 0x7C, 0x7D, 0x7E, 0x7F]
            then [\<lparr>d_severity = DS_Warning, d_range = r, d_source = ''OrbitIDE Embedded LSP'',
                   d_code = ''reserved-i2c-address''\<rparr>]
            else [])
           @ (if address \<in> usedAddresses
              then [\<lparr>d_severity = DS_Information, d_range = r,
                     d_source = ''OrbitIDE Embedded LSP'', d_code = ''duplicate-i2c-address''\<rparr>]
              else [])
           @ (case commonAddresses (''0x'' @ number_toString16 address) of
                None \<Rightarrow> []
              | Some knownDevice \<Rightarrow>
                  if knownDevice \<noteq> []
                  then [\<lparr>d_severity = DS_Information, d_range = r,
                         d_source = ''OrbitIDE Embedded LSP'', d_code = ''i2c-device-hint''\<rparr>]
                  else [])
           @ address_loop_orbit commonAddresses text (insert address usedAddresses) ms)"

text \<open>
  The older \<open>validateI2CUsage\<close>. The first argument is \<open>this.hardwareDB.getProtocol('i2c')\<close>,
  reduced to its \<open>commonAddresses\<close>; without a protocol the method returns at once.
\<close>

definition validateI2CUsage_orbit :: "(string \<rightharpoonup> string) option \<Rightarrow> string
    \<Rightarrow> Diagnostic list \<Rightarrow> Diagnostic list" where
  "validateI2CUsage_orbit i2cProtocol text diagnostics =
     (case i2cProtocol of
        None \<Rightarrow> diagnostics
      | Some commonAddresses \<Rightarrow>
          diagnostics
          @ address_loop_orbit commonAddresses text {} (exec_all addressPattern 0 text)
          @ (let usesWire = (find_first wireWordPattern 0 text \<noteq> None);
                 hasWireBegin = (find_first wireBeginPattern 0 text \<noteq> None)
             in if usesWire \<and> \<not> hasWireBegin
                then [\<lparr>d_severity = DS_Error, d_range = getRange 0 0 1,
                       d_source = ''OrbitIDE Embedded LSP'', d_code = ''missing-wire-begin''\<rparr>]
                else []))"

text \<open>
  The \<open>commonAddresses\<close> of the I2C protocol that \<open>createDefaultProtocols\<close> writes.
\<close>

definition default_commonAddresses :: "string \<rightharpoonup> string" where
  "default_commonAddresses =
     map_of [(''0x27'', ''LCD Display (PCF8574)''), (''0x48'', ''Temperature Sensor (LM75)''),
             (''0x50'', ''EEPROM (24C32)''), (''0x68'', ''Real-Time Clock (DS1307)'')]"

subsection \<open>validateDocument\<close>

text \<open>
  A validator is an asynchronous method: called on the text it gives a promise that is
  fulfilled with an array of diagnostics (\<open>Inr\<close>) or rejected with what the method threw
  (\<open>Inl\<close>). \<open>validateDocument\<close> calls a fixed list of 37 validators; the list is an
  argument here. \<open>catch_empty\<close> is the handler \<open>.catch(e => { ...; return []; })\<close> attached to
  every call, \<open>promise_all\<close> is \<open>Promise.all\<close>: rejected as soon as one promise is, else
  fulfilled with the results in order.
\<close>

type_synonym 'e validator = "string \<Rightarrow> 'e + Diagnostic list"

definition catch_empty :: "'e + Diagnostic list \<Rightarrow> 'e + Diagnostic list" where
  "catch_empty p = (case p of Inl e \<Rightarrow> Inr [] | Inr ds \<Rightarrow> Inr ds)"

fun promise_all :: "('e + 'a) list \<Rightarrow> 'e + 'a list" where
  "promise_all [] = Inr []"
| "promise_all (p # ps) =
     (case p of
        Inl e \<Rightarrow> Inl e
      | Inr v \<Rightarrow> (case promise_all ps of Inl e \<Rightarrow> Inl e | Inr vs \<Rightarrow> Inr (v # vs)))"

text \<open>
  The \<open>try\<close> block awaits \<open>Promise.all\<close> and pushes every result onto \<open>diagnostics\<close>; its
  \<open>catch\<close> block logs and leaves \<open>diagnostics\<close> as it is, which is empty when the await
  throws. The method then returns \<open>diagnostics\<close>.
\<close>

definition validateDocument :: "'e validator list \<Rightarrow> string \<Rightarrow> 'e + Diagnostic list" where
  "validateDocument validators text =
     (case promise_all (map (\<lambda>v. catch_empty (v text)) validators) of
        Inl error \<Rightarrow> Inr []
      | Inr validations \<Rightarrow> Inr (concat validations))"

subsection \<open>Auxiliary notions for the properties of the provider\<close>

text \<open>
  The positions of a document of one line: the character is the offset.
\<close>

definition single_line :: "int \<Rightarrow> Position" where
  "single_line i = \<lparr>p_line = 0, p_character = nat i\<rparr>"

text \<open>
  The addresses the address loop has added to \<open>usedAddresses\<close> after the matches \<open>ms\<close>:
  those of the matches outside comments that are neither reserved nor out of range.
\<close>

fun registered :: "string \<Rightarrow> (nat \<times> string \<times> string) list \<Rightarrow> nat option set" where
  "registered text [] = {}"
| "registered text ((index, m0, g1) # ms) =
     (if \<not> isInComment text index \<and> \<not> num_between (parseInt16 g1) 0x00 0x07
         \<and> \<not> num_between (parseInt16 g1) 0x78 0x7F \<and> \<not> num_greater (parseInt16 g1) 0x7F
      then insert (parseInt16 g1) (registered text ms)
      else registered text ms)"


text \<open>
  The diagnostic the address loop builds for a match, with a given severity and code.
\<close>

abbreviation i2c_diagnostic :: "DiagnosticSeverity \<Rightarrow> string \<Rightarrow> (int \<Rightarrow> Position)
    \<Rightarrow> nat \<times> string \<times> string \<Rightarrow> Diagnostic" where
  "i2c_diagnostic sev c positionAt m \<equiv>
     (case m of (index, m0, g1) \<Rightarrow>
        \<lparr>d_severity = sev,
         d_range = range_at positionAt (int index + indexOf m0 (''0x'' @ g1)) (length (''0x'' @ g1)),
         d_source = ''Sentinel'', d_code = c\<rparr>)"

text \<open>
  The member calls of \<open>Wire\<close> the check after the address loop looks for, a string
  occurring in a text at an index, and a call of \<open>Wire.begin\<close> at an index: the name, white
  space or none, and an opening parenthesis.
\<close>

definition wire_calls :: "string list" where
  "wire_calls = [''Wire.beginTransmission'', ''Wire.requestFrom'', ''Wire.write'', ''Wire.read'']"

definition occurs_at :: "string \<Rightarrow> nat \<Rightarrow> string \<Rightarrow> bool" where
  "occurs_at s k text = starts_with (drop k text) s"

definition wire_begin_at :: "nat \<Rightarrow> string \<Rightarrow> bool" where
  "wire_begin_at k text =
     (\<exists>ws rest. (\<forall>c \<in> set ws. is_space c) \<and> drop k text = ''Wire.begin'' @ ws @ ''('' @ rest)"

section \<open>Properties of the comment stripper\<close>

subsection \<open>strip\<close>

lemma strip_block_blank: "set (fst (strip_block cs)) \<subseteq> {space, newline}"
  by (induction cs rule: strip_block.induct) (auto split: prod.splits)

lemma strip_line_blank: "set (fst (strip_line cs)) \<subseteq> {space, newline}"
  by (induction cs rule: strip_line.induct) (auto split: prod.splits)

lemma strip_from_blank:
  "set ws \<subseteq> {space, newline} \<Longrightarrow>
     strip_from False False (ws @ cs) = ws @ strip_from False False cs"
  by (induction ws) auto

lemma strip_from_blank_cons:
  "set ws \<subseteq> {space, newline} \<Longrightarrow>
     strip_from False False (space # ws @ cs) = space # ws @ strip_from False False cs"
  using strip_from_blank [of "space # ws" cs] by simp

lemma strip_from_take1:
  "take 1 (strip_from s c xs) = [y] \<Longrightarrow> y \<noteq> space \<Longrightarrow> take 1 xs = [y]"
  by (cases xs) (auto split: if_splits)

lemma strip_from_idem: "strip_from s c (strip_from s c xs) = strip_from s c xs"
proof (induction s c xs rule: strip_from.induct)
  case (1 inString inChar)
  then show ?case by simp
next
  case (2 inString inChar c cs)
  consider (esc) "(inString \<or> inChar) \<and> c = backslash"
    | (dq) "\<not> ((inString \<or> inChar) \<and> c = backslash)" "\<not> inChar \<and> c = dquote"
    | (sq) "\<not> ((inString \<or> inChar) \<and> c = backslash)" "\<not> (\<not> inChar \<and> c = dquote)"
           "\<not> inString \<and> c = squote"
    | (quoted) "\<not> ((inString \<or> inChar) \<and> c = backslash)" "\<not> (\<not> inChar \<and> c = dquote)"
           "\<not> (\<not> inString \<and> c = squote)" "inString \<or> inChar"
    | (block) "\<not> inString" "\<not> inChar" "c = slash \<and> take 1 cs = [star]"
    | (line) "\<not> inString" "\<not> inChar" "\<not> (c = slash \<and> take 1 cs = [star])"
           "c = slash \<and> take 1 cs = [slash]"
    | (normal) "\<not> inString" "\<not> inChar" "c \<noteq> dquote" "c \<noteq> squote"
           "\<not> (c = slash \<and> take 1 cs = [star])" "\<not> (c = slash \<and> take 1 cs = [slash])"
    by blast
  then show ?case
  proof cases
    case esc
    with "2.IH"(1) show ?thesis by (cases cs) auto
  next
    case dq
    with "2.IH"(2) show ?thesis by auto
  next
    case sq
    with "2.IH"(3) show ?thesis by auto
  next
    case quoted
    with "2.IH"(4) show ?thesis by auto
  next
    case block
    have ih: "strip_from False False (strip_from False False (snd (strip_block (drop 1 cs))))
        = strip_from False False (snd (strip_block (drop 1 cs)))"
      using "2.IH"(5) block by simp
    have out: "strip_from False False (c # cs) = space # fst (strip_block (drop 1 cs))
        @ strip_from False False (snd (strip_block (drop 1 cs)))"
      using block by simp
    have st: "inString = False" "inChar = False"
      using block by simp_all
    show ?thesis
      unfolding st out using ih
      by (simp only: strip_from_blank_cons [OF strip_block_blank])
  next
    case line
    have ih: "strip_from False False (strip_from False False (snd (strip_line (drop 1 cs))))
        = strip_from False False (snd (strip_line (drop 1 cs)))"
      using "2.IH"(6) line by simp
    have out: "strip_from False False (c # cs) = space # fst (strip_line (drop 1 cs))
        @ strip_from False False (snd (strip_line (drop 1 cs)))"
      using line by simp
    have st: "inString = False" "inChar = False"
      using line by simp_all
    show ?thesis
      unfolding st out using ih
      by (simp only: strip_from_blank_cons [OF strip_line_blank])
  next
    case normal
    have ih: "strip_from False False (strip_from False False cs) = strip_from False False cs"
      using "2.IH"(7) normal by simp
    have out: "strip_from False False (c # cs) = c # strip_from False False cs"
      using normal by simp
    have a: "take 1 (strip_from False False cs) = [star] \<Longrightarrow> take 1 cs = [star]"
      by (rule strip_from_take1) simp_all
    have b: "take 1 (strip_from False False cs) = [slash] \<Longrightarrow> take 1 cs = [slash]"
      by (rule strip_from_take1) simp_all
    have st: "inString = False" "inChar = False"
      using normal by simp_all
    show ?thesis
      unfolding st out using normal(3-6) ih a b by auto
  qed
qed

text \<open>
  Claim C1 says that \<open>strip\<close> keeps the length of the text and the offset of every
  character outside comments. The code appends one space for the two characters of an
  opening delimiter, so every comment shortens the text by one character: on the five
  characters \<open>/**/x\<close>, and on \<open>//a\<close> followed by a newline and \<open>b\<close>, the result is one
  character shorter and the characters after the comment (the newline included) sit one
  offset to the left.
\<close>

theorem strip_shortens_comments:
  "strip ''/**/x'' = ''   x'' \<and> length ''/**/x'' = 5 \<and> length (strip ''/**/x'') = 4
   \<and> strip (''//a'' @ [newline] @ ''b'') = ''  '' @ [newline] @ ''b''
   \<and> (''//a'' @ [newline] @ ''b'') ! 3 = newline
   \<and> strip (''//a'' @ [newline] @ ''b'') ! 2 = newline"
  by (simp add: strip_def)

text \<open>
  Claim C9: \<open>strip\<close> is idempotent: stripping a stripped text changes nothing.
\<close>

theorem strip_idempotent: "strip (strip code) = strip code"
  by (simp add: strip_def strip_from_idem)

theorem strip_idempotent_witness:
  "strip (strip ''a /* b */ c // d'') = strip ''a /* b */ c // d''"
  using strip_idempotent [of "''a /* b */ c // d''"] by simp

subsection \<open>isInComment\<close>

declare isInComment_from.simps [simp del]

lemma isInComment_from_done:
  "position \<le> i \<Longrightarrow> isInComment_from position i cs inString inChar = False"
  by (subst isInComment_from.simps) simp

lemma isInComment_from_literal:
  assumes "lit_body q body"
    and "(q = dquote \<and> inString \<and> \<not> inChar) \<or> (q = squote \<and> \<not> inString \<and> inChar)"
    and "position \<le> i + length body + 1"
  shows "isInComment_from position i (body @ q # post) inString inChar = False"
  using assms(1,3)
proof (induction "length body" arbitrary: body i rule: less_induct)
  case less
  note st = assms(2)
  show ?case
  proof (cases "i < position")
    case False
    then show ?thesis by (simp add: isInComment_from_done)
  next
    case True
    show ?thesis
    proof (cases "(q, body)" rule: lit_body.cases)
      case (1 q')
      then have "body = []" by simp
      with less.prems True st show ?thesis
        by (subst isInComment_from.simps) (auto simp: isInComment_from_done)
    next
      case (2 q' c)
      then have b: "body = [c]" by simp
      with less.prems have c: "c \<noteq> backslash" "c \<noteq> q" by simp_all
      have "isInComment_from position (i + 1) ([] @ q # post) inString inChar = False"
        using less.hyps [of "[]" "i + 1"] less.prems b by simp
      with True st c show ?thesis
        unfolding b by (subst isInComment_from.simps) auto
    next
      case (3 q' c d cs)
      then have b: "body = c # d # cs" by simp
      show ?thesis
      proof (cases "c = backslash")
        case True
        with less.prems b have "lit_body q cs" by simp
        then have "isInComment_from position (i + 2) (cs @ q # post) inString inChar = False"
          using less.hyps [of cs "i + 2"] less.prems b by simp
        with \<open>i < position\<close> st True show ?thesis
          unfolding b by (subst isInComment_from.simps) auto
      next
        case False
        with less.prems b have l: "c \<noteq> q" "lit_body q (d # cs)" by simp_all
        then have "isInComment_from position (i + 1) ((d # cs) @ q # post) inString inChar = False"
          using less.hyps [of "d # cs" "i + 1"] less.prems b by simp
        with \<open>i < position\<close> st False l show ?thesis
          unfolding b by (subst isInComment_from.simps) auto
      qed
    qed
  qed
qed

lemma render_Cons: "render (t # ts) = render_token t @ render ts"
  by (simp add: render_def)

lemma block_end_closed:
  "no_close b \<Longrightarrow> block_end (b @ star # slash # rest) = length b + 2"
  by (induction b rule: no_close.induct) auto

lemma line_end_closed:
  "newline \<notin> set b \<Longrightarrow> line_end (b @ newline # rest) = length b"
  by (induction b) auto

lemma isInComment_from_through_literal:
  assumes "lit_body q body"
    and "(q = dquote \<and> inString \<and> \<not> inChar) \<or> (q = squote \<and> \<not> inString \<and> inChar)"
    and "i + length body < position"
  shows "isInComment_from position i (body @ q # rest) inString inChar
     = isInComment_from position (i + length body + 1) rest False False"
  using assms(1,3)
proof (induction "length body" arbitrary: body i rule: less_induct)
  case less
  note st = assms(2)
  have lt: "i < position" using less.prems(2) by simp
  show ?case
  proof (cases "(q, body)" rule: lit_body.cases)
    case (1 q')
    then have "body = []" by simp
    with lt st show ?thesis
      by (subst isInComment_from.simps) auto
  next
    case (2 q' c)
    then have b: "body = [c]" by simp
    with less.prems have c: "c \<noteq> backslash" "c \<noteq> q" by simp_all
    have "isInComment_from position (i + 1) ([] @ q # rest) inString inChar
        = isInComment_from position (i + 1 + length ([] :: string) + 1) rest False False"
      using less.hyps [of "[]" "i + 1"] less.prems b by simp
    with lt st c show ?thesis
      unfolding b by (subst isInComment_from.simps) auto
  next
    case (3 q' c d cs)
    then have b: "body = c # d # cs" by simp
    show ?thesis
    proof (cases "c = backslash")
      case True
      with less.prems b have "lit_body q cs" by simp
      then have "isInComment_from position (i + 2) (cs @ q # rest) inString inChar
          = isInComment_from position (i + 2 + length cs + 1) rest False False"
        using less.hyps [of cs "i + 2"] less.prems b by simp
      with lt st True show ?thesis
        unfolding b by (subst isInComment_from.simps) auto
    next
      case False
      with less.prems b have l: "c \<noteq> q" "lit_body q (d # cs)" by simp_all
      then have "isInComment_from position (i + 1) ((d # cs) @ q # rest) inString inChar
          = isInComment_from position (i + 1 + length (d # cs) + 1) rest False False"
        using less.hyps [of "d # cs" "i + 1"] less.prems b by simp
      with lt st False l show ?thesis
        unfolding b by (subst isInComment_from.simps) auto
    qed
  qed
qed

lemma isInComment_from_token:
  assumes "wf_token t"
    and "t = Code slash \<longrightarrow> take 1 rest \<noteq> [slash] \<and> take 1 rest \<noteq> [star]"
    and "i + length (render_token t) < position"
  shows "isInComment_from position i (render_token t @ rest) False False
     = isInComment_from position (i + length (render_token t)) rest False False"
proof (cases t)
  case (Code c)
  with assms show ?thesis
    by (subst isInComment_from.simps) auto
next
  case (StringLit b)
  with assms have "isInComment_from position (i + 1) (b @ dquote # rest) True False
      = isInComment_from position (i + 1 + length b + 1) rest False False"
    by (intro isInComment_from_through_literal) auto
  with StringLit assms(3) show ?thesis
    by (subst isInComment_from.simps) auto
next
  case (CharLit b)
  with assms have "isInComment_from position (i + 1) (b @ squote # rest) False True
      = isInComment_from position (i + 1 + length b + 1) rest False False"
    by (intro isInComment_from_through_literal) auto
  with CharLit assms(3) show ?thesis
    by (subst isInComment_from.simps) auto
next
  case (BlockComment b)
  with assms(1) have "block_end (b @ star # slash # rest) = length b + 2"
    by (intro block_end_closed) simp
  with BlockComment assms(3) show ?thesis
    by (subst isInComment_from.simps) (auto simp: Let_def)
next
  case (LineComment b)
  with assms(1) have "line_end (b @ newline # rest) = length b"
    by (intro line_end_closed) simp
  with LineComment assms(3) show ?thesis
    by (subst isInComment_from.simps) (auto simp: Let_def)
qed


lemma isInComment_from_tokens:
  assumes "wf_tokens ts"
    and "take 1 rest \<noteq> [slash]" and "take 1 rest \<noteq> [star]"
    and "i + length (render ts) < position"
  shows "isInComment_from position i (render ts @ rest) False False
     = isInComment_from position (i + length (render ts)) rest False False"
  using assms(1,4)
proof (induction ts arbitrary: i)
  case Nil
  then show ?case by (simp add: render_def)
next
  case (Cons t ts)
  have w: "wf_token t" "wf_tokens ts"
    using Cons.prems(1) by simp_all
  have next_ok: "t = Code slash \<longrightarrow>
      take 1 (render ts @ rest) \<noteq> [slash] \<and> take 1 (render ts @ rest) \<noteq> [star]"
  proof (cases "render ts")
    case Nil
    with assms(2,3) show ?thesis by simp
  next
    case (Cons c cs)
    with Cons.prems(1) show ?thesis by simp
  qed
  have len: "i + length (render_token t) < position"
    "i + length (render_token t) + length (render ts) < position"
    using Cons.prems(2) by (simp_all add: render_Cons)
  have "isInComment_from position i (render_token t @ (render ts @ rest)) False False
      = isInComment_from position (i + length (render_token t)) (render ts @ rest) False False"
    by (rule isInComment_from_token [OF w(1) next_ok len(1)])
  also have "\<dots> = isInComment_from position (i + length (render_token t) + length (render ts))
      rest False False"
    by (rule Cons.IH [OF w(2) len(2)])
  finally show ?case by (simp add: render_Cons add.assoc)
qed

text \<open>
  Claim C4: quoted comment delimiters are not comments. Take any text that starts with a
  well-formed sequence of tokens (code with divisions, literals, comments), goes on with
  a string or character literal and ends with anything. Every offset after the opening
  quote and up to the closing quote of that literal is classified as not in a comment,
  whatever the literal holds: comment delimiters, escaped quotes, escaped backslashes.
  An escape pair is consumed as one unit in the literals before and in the literal
  itself, so that an escaped quote closes neither.
\<close>

theorem isInComment_quoted_delimiters:
  assumes "q = dquote \<or> q = squote"
    and "wf_tokens ts"
    and "lit_body q body"
    and "length (render ts) < position"
    and "position \<le> length (render ts) + length body + 1"
  shows "\<not> isInComment (render ts @ q # body @ q # post) position"
proof -
  have q: "take 1 (q # body @ q # post) \<noteq> [slash]" "take 1 (q # body @ q # post) \<noteq> [star]"
    using assms(1) by auto
  have a: "isInComment (render ts @ q # body @ q # post) position
      = isInComment_from position (length (render ts)) (q # body @ q # post) False False"
    unfolding isInComment_def
    using isInComment_from_tokens [OF assms(2) q, of 0 position] assms(4) by simp
  have b: "isInComment_from position (length (render ts)) (q # body @ q # post) False False
      = isInComment_from position (length (render ts) + 1) (body @ q # post)
          (q = dquote) (q = squote)"
    using assms(1,4) by (subst isInComment_from.simps) auto
  have c: "isInComment_from position (length (render ts) + 1) (body @ q # post)
      (q = dquote) (q = squote) = False"
    using assms(1,3,5) by (intro isInComment_from_literal) auto
  show ?thesis unfolding a b c by simp
qed

theorem isInComment_quoted_delimiters_witness:
  "\<not> isInComment (''const char* s = '' @ dquote # [CHR ''a'', backslash, dquote, slash, slash, CHR ''b'']
       @ dquote # '';'') 20
   \<and> \<not> isInComment (''x = a / b; s = '' @ dquote # ''//c'' @ dquote # '';'') 17
   \<and> \<not> isInComment (''/*'' @ [dquote] @ ''*/c='' @ [squote, dquote, squote] @ '';a/b//it''
       @ [squote] @ ''s'' @ [newline] @ dquote # ''/*x*/'' @ dquote # '';'') 24"
proof -
  have 1: "\<not> isInComment (render (map Code ''const char* s = '')
      @ dquote # [CHR ''a'', backslash, dquote, slash, slash, CHR ''b''] @ dquote # '';'') 20"
    by (rule isInComment_quoted_delimiters) (simp_all add: render_def)
  have 2: "\<not> isInComment (render (map Code ''x = a / b; s = '')
      @ dquote # ''//c'' @ dquote # '';'') 17"
    by (rule isInComment_quoted_delimiters) (simp_all add: render_def)
  have 3: "\<not> isInComment (render [BlockComment [dquote], Code (CHR ''c''), Code (CHR ''=''),
        CharLit [dquote], Code (CHR '';''), Code (CHR ''a''), Code slash, Code (CHR ''b''),
        LineComment (''it'' @ [squote] @ ''s'')]
      @ dquote # ''/*x*/'' @ dquote # '';'') 24"
    by (rule isInComment_quoted_delimiters) (simp_all add: render_def)
  from 1 2 3 show ?thesis by (simp add: render_def)
qed

section \<open>Properties of the pin usage tracker\<close>

lemma map_push_fst: "map fst (map_push m p u) = map fst m"
  by (induction m p u rule: map_push.induct) auto

lemma map_push_mem:
  "(q, g) \<in> set (map_push m p u) \<Longrightarrow> distinct (map fst m) \<Longrightarrow>
     (q \<noteq> p \<and> (q, g) \<in> set m) \<or> (q = p \<and> (\<exists>g'. (p, g') \<in> set m \<and> g = g' @ [u]))"
proof (induction m p u rule: map_push.induct)
  case (1 p u)
  then show ?case by simp
next
  case (2 q' us m p u)
  show ?case
  proof (cases "q' = p")
    case True
    with "2.prems" show ?thesis
      by (auto simp: image_iff)
  next
    case False
    with "2.prems" "2.IH" show ?thesis
      by auto
  qed
qed

lemma grouped_distinct: "grouped us m \<Longrightarrow> distinct (map fst m)"
  unfolding grouped_def by (elim conjE)

lemma grouped_keys: "grouped us m \<Longrightarrow> pin ` set us \<subseteq> fst ` set m"
  unfolding grouped_def by (elim conjE)

lemma grouped_entry:
  assumes "grouped us m" and "(p, g) \<in> set m"
  shows "g = filter (\<lambda>v. pin v = p) us \<and> g \<noteq> []"
proof -
  from assms(1) have "\<forall>(p, g) \<in> set m. g = filter (\<lambda>u. pin u = p) us \<and> g \<noteq> []"
    unfolding grouped_def by (elim conjE)
  from bspec [OF this assms(2)] show ?thesis
    unfolding prod.case .
qed

lemma groupedI:
  assumes "distinct (map fst m)" and "pin ` set us \<subseteq> fst ` set m"
    and "\<And>p g. (p, g) \<in> set m \<Longrightarrow> g = filter (\<lambda>v. pin v = p) us \<and> g \<noteq> []"
  shows "grouped us m"
  unfolding grouped_def
proof (intro conjI ballI)
  fix x assume x: "x \<in> set m"
  obtain p g where pg: "x = (p, g)" by (cases x)
  show "case x of (p, g) \<Rightarrow> g = filter (\<lambda>u. pin u = p) us \<and> g \<noteq> []"
    unfolding pg prod.case by (rule assms(3) [OF x [unfolded pg]])
qed (rule assms(1), rule assms(2))

lemma grouped_add_present:
  assumes "grouped us m" and "map_has m (pin u)"
  shows "grouped (us @ [u]) (map_push m (pin u) u)"
proof -
  have d: "distinct (map fst m)"
    using assms(1) by (rule grouped_distinct)
  have k: "pin ` set us \<subseteq> fst ` set m"
    using assms(1) by (rule grouped_keys)
  have e: "g = filter (\<lambda>v. pin v = p) us \<and> g \<noteq> []" if "(p, g) \<in> set m" for p g
    using assms(1) that by (rule grouped_entry)
  have "g = filter (\<lambda>v. pin v = p) (us @ [u]) \<and> g \<noteq> []"
    if "(p, g) \<in> set (map_push m (pin u) u)" for p g
  proof -
    from map_push_mem [OF that d]
    consider "p \<noteq> pin u" "(p, g) \<in> set m"
      | g' where "p = pin u" "(pin u, g') \<in> set m" "g = g' @ [u]"
      by blast
    then show ?thesis
    proof cases
      case 1
      from e [OF 1(2)] have "g = filter (\<lambda>v. pin v = p) us" and "g \<noteq> []"
        by (rule conjunct1, rule conjunct2)
      with 1(1) show ?thesis by auto
    next
      case 2
      from e [OF 2(2)] have "g' = filter (\<lambda>v. pin v = pin u) us"
        by (rule conjunct1)
      with 2(1,3) show ?thesis by auto
    qed
  qed
  moreover have "pin ` set (us @ [u]) \<subseteq> fst ` set (map_push m (pin u) u)"
  proof -
    have "fst ` set (map_push m (pin u) u) = fst ` set m"
      using map_push_fst [of m "pin u" u] by (metis set_map)
    moreover have "pin u \<in> fst ` set m"
      using assms(2) by (simp add: map_has_def)
    ultimately show ?thesis using k by simp
  qed
  moreover have "distinct (map fst (map_push m (pin u) u))"
    using d by (simp add: map_push_fst)
  ultimately show ?thesis
    by (intro groupedI)
qed

lemma grouped_add_absent:
  assumes "grouped us m" and "\<not> map_has m (pin u)"
  shows "grouped (us @ [u]) (map_push (m @ [(pin u, [])]) (pin u) u)"
proof -
  let ?m' = "m @ [(pin u, [])]"
  have n: "pin u \<notin> fst ` set m"
    using assms(2) by (simp add: map_has_def)
  have d0: "distinct (map fst m)"
    using assms(1) by (rule grouped_distinct)
  have d: "distinct (map fst ?m')"
    using d0 n by simp
  have k: "pin ` set us \<subseteq> fst ` set m"
    using assms(1) by (rule grouped_keys)
  have e: "g = filter (\<lambda>v. pin v = p) us \<and> g \<noteq> []" if "(p, g) \<in> set m" for p g
    using assms(1) that by (rule grouped_entry)
  have "pin v \<noteq> pin u" if "v \<in> set us" for v
  proof
    assume eq: "pin v = pin u"
    from that have "pin v \<in> pin ` set us" by (rule imageI)
    with k have "pin v \<in> fst ` set m" by (rule subsetD)
    with eq n show False by simp
  qed
  then have none: "filter (\<lambda>v. pin v = pin u) us = []"
    by (simp add: filter_empty_conv)
  have "g = filter (\<lambda>v. pin v = p) (us @ [u]) \<and> g \<noteq> []"
    if "(p, g) \<in> set (map_push ?m' (pin u) u)" for p g
  proof -
    from map_push_mem [OF that d]
    consider "p \<noteq> pin u" "(p, g) \<in> set ?m'"
      | g' where "p = pin u" "(pin u, g') \<in> set ?m'" "g = g' @ [u]"
      by blast
    then show ?thesis
    proof cases
      case 1
      then have "(p, g) \<in> set m" by simp
      from e [OF this] have "g = filter (\<lambda>v. pin v = p) us" and "g \<noteq> []"
        by (rule conjunct1, rule conjunct2)
      with 1(1) show ?thesis by auto
    next
      case 2
      have "g' = []"
      proof (rule ccontr)
        assume "g' \<noteq> []"
        with 2(2) have "(pin u, g') \<in> set m" by simp
        then have "pin u \<in> fst ` set m" by force
        with n show False by simp
      qed
      with 2 none show ?thesis by simp
    qed
  qed
  moreover have "pin ` set (us @ [u]) \<subseteq> fst ` set (map_push ?m' (pin u) u)"
  proof -
    have "fst ` set (map_push ?m' (pin u) u) = fst ` set ?m'"
      using map_push_fst [of ?m' "pin u" u] by (metis set_map)
    then show ?thesis using k by auto
  qed
  moreover have "distinct (map fst (map_push ?m' (pin u) u))"
    using d by (simp only: map_push_fst)
  ultimately show ?thesis
    by (intro groupedI)
qed

lemma grouped_add:
  assumes "grouped us m"
  shows "grouped (us @ [u]) (add_usage m u)"
  using grouped_add_present [OF assms, of u] grouped_add_absent [OF assms, of u]
  by (simp add: add_usage_def)

lemma grouped_foldl: "grouped us (foldl add_usage [] us)"
proof (induction us rule: rev_induct)
  case Nil
  show ?case by (simp add: grouped_def)
next
  case (snoc u us)
  then show ?case by (simp add: grouped_add)
qed

lemma detectConflicts_ok:
  assumes "\<forall>(p, g) \<in> set m. g \<noteq> []"
  shows "detectConflicts m = Inr (map (\<lambda>(p, g). \<lparr>rpin = p, usages = g, status = fst (classify g),
      message = snd (classify g), primaryType = type (hd g)\<rparr>) m)"
  using assms
  by (induction m rule: detectConflicts.induct) (auto split: list.splits sum.splits)

lemma classify_bool:
  "fst (if sd then (Warning, m4) else if pd then (Conflict, m3)
        else if iw then (Conflict, m2) else if oi then (Conflict, m1) else (Valid, m0))
     = (if sd then Warning else if oi \<or> iw \<or> pd then Conflict else Valid)"
  by simp

lemma classify_status_many:
  "length us > 1 \<Longrightarrow> fst (classify us) =
     (if warning_condition (set (map type us)) then Warning
      else if conflict_condition (set (map type us)) then Conflict
      else Valid)"
  unfolding classify_def warning_condition_def conflict_condition_def Let_def
  by (simp only: if_True classify_bool)

lemma conflict_condition_single: "\<not> conflict_condition {k}"
  by (cases k) (simp_all add: conflict_condition_def)

lemma warning_condition_single: "\<not> warning_condition {k}"
  by (cases k) (simp_all add: warning_condition_def)

lemma classify_status_few:
  "\<not> length us > 1 \<Longrightarrow> fst (classify us) =
     (if warning_condition (set (map type us)) then Warning
      else if conflict_condition (set (map type us)) then Conflict
      else Valid)"
proof -
  assume a: "\<not> length us > 1"
  then have v: "fst (classify us) = Valid"
    by (simp add: classify_def Let_def)
  from a have "us = [] \<or> (\<exists>u. us = [u])"
    by (cases us) auto
  then have "\<not> warning_condition (set (map type us)) \<and> \<not> conflict_condition (set (map type us))"
  proof
    assume "us = []"
    then show ?thesis by (simp add: warning_condition_def conflict_condition_def)
  next
    assume "\<exists>u. us = [u]"
    then show ?thesis
      by (auto simp: conflict_condition_single warning_condition_single)
  qed
  with v show ?thesis by simp
qed

lemma classify_status:
  "fst (classify us) =
     (if warning_condition (set (map type us)) then Warning
      else if conflict_condition (set (map type us)) then Conflict
      else Valid)"
  using classify_status_many [of us] classify_status_few [of us] by blast

text \<open>
  Claim C2, as the code has it. The four checks of \<open>detectConflicts\<close> are not alternatives:
  each one that applies overwrites the status, so the last one that applies decides. For
  every pin of the usage sequence there is exactly one record; its status is \<open>warning\<close>
  when the kinds of the pin satisfy the serial-plus-digital condition (also when they
  satisfy a conflict condition), \<open>conflict\<close> when they satisfy a conflict condition and
  not the serial-plus-digital condition, and \<open>valid\<close> otherwise.
\<close>

theorem buildPinMap_last_check_wins:
  assumes "p \<in> pin ` set us"
  shows "\<exists>r rs1 rs2. buildPinMap us = Inr (rs1 @ r # rs2)
           \<and> rpin r = p \<and> p \<notin> rpin ` set (rs1 @ rs2)
           \<and> usages r = filter (\<lambda>u. pin u = p) us
           \<and> status r = (if warning_condition (kinds_of us p) then Warning
                         else if conflict_condition (kinds_of us p) then Conflict
                         else Valid)"
proof -
  let ?m = "foldl add_usage [] us"
  let ?f = "\<lambda>(p, g). \<lparr>rpin = p, usages = g, status = fst (classify g),
      message = snd (classify g), primaryType = type (hd g)\<rparr>"
  have g: "grouped us ?m" by (rule grouped_foldl)
  have "p \<in> fst ` set ?m"
    using grouped_keys [OF g] assms by (rule subsetD)
  then obtain x where x: "x \<in> set ?m" "p = fst x" by (rule imageE)
  obtain g0 where x2: "x = (p, g0)" using x(2) by (cases x) simp
  from x(1) obtain m1 m2 where m: "?m = m1 @ (p, g0) # m2"
    unfolding x2 by (auto dest: split_list)
  have ne: "\<forall>(p, g) \<in> set ?m. g \<noteq> []"
  proof (intro ballI)
    fix y assume y: "y \<in> set ?m"
    obtain q h where yh: "y = (q, h)" by (cases y)
    from grouped_entry [OF g y [unfolded yh]] have "h \<noteq> []" by (rule conjunct2)
    then show "case y of (p, g) \<Rightarrow> g \<noteq> []" unfolding yh prod.case .
  qed
  have "(p, g0) \<in> set ?m" using x(1) unfolding x2 .
  from grouped_entry [OF g this] have gp: "g0 = filter (\<lambda>u. pin u = p) us"
    by (rule conjunct1)
  have "distinct (map fst (m1 @ (p, g0) # m2))"
    using grouped_distinct [OF g] unfolding m .
  then have d: "p \<notin> fst ` set (m1 @ m2)"
    by auto
  have fst_f: "rpin ` set (map ?f xs) = fst ` set xs" for xs :: pin_map
    by (induction xs) auto
  have "detectConflicts ?m = Inr (map ?f ?m)"
    by (rule detectConflicts_ok [OF ne])
  then have b: "buildPinMap us = Inr (map ?f m1 @ ?f (p, g0) # map ?f m2)"
    unfolding buildPinMap_def m by simp
  have n: "p \<notin> rpin ` set (map ?f m1 @ map ?f m2)"
    using d fst_f [of "m1 @ m2"] by simp
  have s: "status (?f (p, g0)) = (if warning_condition (kinds_of us p) then Warning
                         else if conflict_condition (kinds_of us p) then Conflict
                         else Valid)"
    using classify_status [of g0] unfolding gp kinds_of_def by simp
  have r: "rpin (?f (p, g0)) = p" by simp
  have u: "usages (?f (p, g0)) = filter (\<lambda>u. pin u = p) us"
    using gp by simp
  from b r n u s show ?thesis by blast
qed

theorem buildPinMap_last_check_wins_witness:
  "\<exists>r rs1 rs2. buildPinMap serial_pin_usages = Inr (rs1 @ r # rs2)
      \<and> rpin r = 0 \<and> status r = Warning"
  using buildPinMap_last_check_wins [of 0 serial_pin_usages]
  by (simp add: kinds_of_def warning_condition_def) blast

text \<open>
  Claim C2 as stated (a conflict condition takes priority over the warning condition)
  fails on pin 0 used as digital output, as digital input and by Serial: the kinds
  satisfy a conflict condition and the warning condition, and the status is \<open>warning\<close>.
\<close>

theorem buildPinMap_conflict_priority_counterexample:
  "conflict_condition (kinds_of serial_pin_usages 0)
   \<and> warning_condition (kinds_of serial_pin_usages 0)
   \<and> buildPinMap serial_pin_usages =
       Inr [\<lparr>rpin = 0, usages = serial_pin_usages, status = Warning,
             message = SerialAndDigital, primaryType = digital_output\<rparr>]"
  by (simp add: kinds_of_def warning_condition_def conflict_condition_def buildPinMap_def
      add_usage_def map_has_def classify_def)

section \<open>Properties of the diagnostic provider\<close>

subsection \<open>validateDocument\<close>

lemma promise_all_caught:
  "promise_all (map (\<lambda>v. catch_empty (v text)) validators)
     = Inr (map (\<lambda>v. case v text of Inl e \<Rightarrow> [] | Inr ds \<Rightarrow> ds) validators)"
  by (induction validators) (auto simp: catch_empty_def split: sum.splits)

text \<open>
  Claim C5: \<open>validateDocument\<close> is fault-isolated per validator. Whatever the validators
  do, it returns normally, and its result is the concatenation, in order, of the outputs
  of the validators that return, a validator that throws contributing nothing.
\<close>

theorem validateDocument_fault_isolated:
  "validateDocument validators text
     = Inr (concat (map (\<lambda>v. case v text of Inl e \<Rightarrow> [] | Inr ds \<Rightarrow> ds) validators))"
  by (simp add: validateDocument_def promise_all_caught)

theorem validateDocument_fault_isolated_witness:
  "validateDocument
     [\<lambda>text. Inr (validatePWMUsage \<lparr>currentBoard = None\<rparr> text single_line),
      \<lambda>text. Inl TypeError,
      \<lambda>text. Inr (validateI2CUsage text single_line [])]
     ''analogWrite(2, 128); Wire.read();''
   = Inr (validatePWMUsage \<lparr>currentBoard = None\<rparr> ''analogWrite(2, 128); Wire.read();'' single_line
          @ validateI2CUsage ''analogWrite(2, 128); Wire.read();'' single_line [])"
  using validateDocument_fault_isolated
    [of "[\<lambda>text. Inr (validatePWMUsage \<lparr>currentBoard = None\<rparr> text single_line),
      \<lambda>text. Inl TypeError,
      \<lambda>text. Inr (validateI2CUsage text single_line [])]" "''analogWrite(2, 128); Wire.read();''"]
  by simp


subsection \<open>validatePWMUsage\<close>

text \<open>
  Claim C10: the diagnostics of \<open>validatePWMUsage\<close> do not depend on the hardware
  database: with any board loaded, or none, they are the same.
\<close>

theorem validatePWMUsage_ignores_board:
  "validatePWMUsage hardwareDB text positionAt = validatePWMUsage hardwareDB' text positionAt"
  by (simp add: validatePWMUsage_def)

theorem validatePWMUsage_ignores_board_witness:
  "validatePWMUsage
      \<lparr>currentBoard = Some \<lparr>b_name = ''Custom'', b_digital = [2], b_analog = [],
                               b_pwm = [2], b_interrupts = []\<rparr>\<rparr>
      ''analogWrite(2, 128)'' single_line
   = validatePWMUsage \<lparr>currentBoard = None\<rparr> ''analogWrite(2, 128)'' single_line"
  by (rule validatePWMUsage_ignores_board)

subsection \<open>validateI2CUsage\<close>

lemma address_loop_append:
  "address_loop text pa U (ms1 @ ms2)
     = address_loop text pa U ms1 @ address_loop text pa (U \<union> registered text ms1) ms2"
  by (induction "text" pa U ms1 rule: address_loop.induct) (auto simp: Let_def)

lemma registered_append:
  "registered text (ms1 @ ms2) = registered text ms1 \<union> registered text ms2"
  by (induction "text" ms1 rule: registered.induct) auto

lemma exec_all_pat:
  "(k, m0, g) \<in> set (exec_all pat i cs) \<Longrightarrow> \<exists>cs'. pat cs' = Some (m0, g)"
  by (induction pat i cs rule: exec_all.induct) (auto split: option.splits)

lemma starts_with_iff: "starts_with cs p \<longleftrightarrow> (\<exists>r. cs = p @ r)"
  by (induction cs p rule: starts_with.induct) auto

lemma takeWhile_hex_no_x:
  "\<not> starts_with (takeWhile is_hex cs) ''0x'' \<and> \<not> starts_with (takeWhile is_hex cs) ''0X''"
proof -
  have "False" if "takeWhile is_hex cs = [c, x] @ r" "\<not> is_hex x" for c x r
  proof -
    have "x \<in> set (takeWhile is_hex cs)" unfolding that(1) by simp
    then have "is_hex x" by (auto dest: set_takeWhileD)
    with that(2) show False by simp
  qed
  from this [of "CHR ''0''" "CHR ''x''"] this [of "CHR ''0''" "CHR ''X''"]
  show ?thesis
    by (auto simp: starts_with_iff is_hex_def)
qed

lemma addressPattern_group:
  assumes "addressPattern cs = Some (m0, g1)"
  shows "\<exists>a. parseInt16 g1 = Some a"
proof -
  from assms obtain r3 where g: "g1 = takeWhile is_hex r3" "g1 \<noteq> []"
    by (auto simp: addressPattern_def Let_def split: Option.bind_splits if_splits)
  have "takeWhile is_hex g1 = g1"
    unfolding g(1) by (simp add: takeWhile_idem)
  with g takeWhile_hex_no_x [of r3] show ?thesis
    by (simp add: parseInt16_def)
qed

text \<open>
  The classification of a scanned address by \<open>validateI2CUsage\<close> of the current provider.
  For every match of the address pattern outside comments, it adds, between the
  diagnostics of the matches before it and those of the matches after it, exactly one
  diagnostic with code \<open>reserved-i2c-address\<close> when the address is in 0x00-0x07 or
  0x78-0x7F, exactly one with code \<open>invalid-i2c-address\<close> when it is greater than 0x7F, and
  otherwise one information diagnostic with code \<open>duplicate-i2c-address\<close> when the same
  address was registered by an earlier match, and none when it was not.
\<close>

theorem i2c_address_classification:
  assumes "exec_all addressPattern 0 text = before @ (index, m0, g1) # after"
    and "\<not> isInComment text index"
  shows "\<exists>a. parseInt16 g1 = Some a
    \<and> validateI2CUsage text positionAt diagnostics =
        diagnostics
        @ address_loop text positionAt {} before
        @ (if a \<le> 0x07 \<or> (0x78 \<le> a \<and> a \<le> 0x7F)
             then [i2c_diagnostic DS_Error ''reserved-i2c-address'' positionAt (index, m0, g1)]
           else if a > 0x7F
             then [i2c_diagnostic DS_Error ''invalid-i2c-address'' positionAt (index, m0, g1)]
           else if Some a \<in> registered text before
             then [i2c_diagnostic DS_Information ''duplicate-i2c-address'' positionAt
                     (index, m0, g1)]
           else [])
        @ address_loop text positionAt (registered text (before @ [(index, m0, g1)])) after
        @ wire_begin_check text positionAt"
proof -
  have "(index, m0, g1) \<in> set (exec_all addressPattern 0 text)"
    using assms(1) by simp
  then obtain cs' where "addressPattern cs' = Some (m0, g1)"
    by (auto dest: exec_all_pat)
  then obtain a where a: "parseInt16 g1 = Some a"
    by (auto dest: addressPattern_group)
  have reg: "registered text (before @ [(index, m0, g1)])
      = registered text before \<union> registered text [(index, m0, g1)]"
    by (rule registered_append)
  show ?thesis
    unfolding validateI2CUsage_def assms(1) address_loop_append
    using a assms(2)
    by (auto simp: reg Let_def num_between_def num_greater_def)
qed

theorem i2c_address_classification_witness:
  "validateI2CUsage ''Wire.begin(); Wire.beginTransmission(0x05); Wire.requestFrom(0x90, 1);''
      single_line []
   = [\<lparr>d_severity = DS_Error,
        d_range = \<lparr>r_start = \<lparr>p_line = 0, p_character = 37\<rparr>,
                   r_end = \<lparr>p_line = 0, p_character = 41\<rparr>\<rparr>,
        d_source = ''Sentinel'', d_code = ''reserved-i2c-address''\<rparr>,
      \<lparr>d_severity = DS_Error,
        d_range = \<lparr>r_start = \<lparr>p_line = 0, p_character = 61\<rparr>,
                   r_end = \<lparr>p_line = 0, p_character = 65\<rparr>\<rparr>,
        d_source = ''Sentinel'', d_code = ''invalid-i2c-address''\<rparr>]"
proof -
  let ?text = "''Wire.begin(); Wire.beginTransmission(0x05); Wire.requestFrom(0x90, 1);''"
  have m: "exec_all addressPattern 0 ?text
      = [] @ (19, ''beginTransmission(0x05'', ''05'')
           # [(49, ''requestFrom(0x90'', ''90'')]"
    by code_simp
  have c: "\<not> isInComment ?text 19"
    by code_simp
  have p: "parseInt16 ''05'' = Some 5"
    by code_simp
  have rest: "address_loop ?text single_line
       (registered ?text ([] @ [(19, ''beginTransmission(0x05'', ''05'')]))
       [(49, ''requestFrom(0x90'', ''90'')]
     = [\<lparr>d_severity = DS_Error,
        d_range = \<lparr>r_start = \<lparr>p_line = 0, p_character = 61\<rparr>,
                   r_end = \<lparr>p_line = 0, p_character = 65\<rparr>\<rparr>,
        d_source = ''Sentinel'', d_code = ''invalid-i2c-address''\<rparr>]"
    by code_simp
  have w: "wire_begin_check ?text single_line = []"
    by code_simp
  have r: "range_at single_line (int 19 + indexOf ''beginTransmission(0x05'' (''0x'' @ ''05''))
      (length (''0x'' @ ''05''))
     = \<lparr>r_start = \<lparr>p_line = 0, p_character = 37\<rparr>,
        r_end = \<lparr>p_line = 0, p_character = 41\<rparr>\<rparr>"
    by code_simp
  from i2c_address_classification [OF m c, of single_line "[]"] p rest w r
  show ?thesis by simp
qed

text \<open>
  Claim C3 says that a reserved address (0x00-0x07, 0x78-0x7F) is reported with code
  \<open>reserved-i2c-address\<close> and never with code \<open>invalid-i2c-address\<close>. The current provider
  does so (theorem \<open>i2c_address_classification\<close>). The older copy of \<open>validateI2CUsage\<close>
  tests \<open>address < 8 || address > 119\<close> first: it reports the addresses 0x05 and 0x7F with
  code \<open>invalid-i2c-address\<close>, and its check of the reserved addresses, which all lie
  outside 8-119, is never reached.
\<close>

theorem orbit_reserved_address_reported_invalid:
  "validateI2CUsage_orbit (Some default_commonAddresses)
      ''Wire.begin(); Wire.beginTransmission(0x05);'' []
   = [\<lparr>d_severity = DS_Error, d_range = getRange 0 19 22,
        d_source = ''OrbitIDE Embedded LSP'', d_code = ''invalid-i2c-address''\<rparr>]
   \<and> validateI2CUsage_orbit (Some default_commonAddresses)
      ''Wire.begin(); Wire.beginTransmission(0x7F);'' []
   = [\<lparr>d_severity = DS_Error, d_range = getRange 0 19 22,
        d_source = ''OrbitIDE Embedded LSP'', d_code = ''invalid-i2c-address''\<rparr>]"
  by code_simp

lemma lit_Some: "lit p cs = Some r \<longleftrightarrow> cs = p @ r"
  by (auto simp: lit_def starts_with_iff)

lemma lit_None: "lit p cs = None \<longleftrightarrow> \<not> starts_with cs p"
  by (simp add: lit_def)

lemma consumed_append: "consumed (p @ r) r = p"
  by (simp add: consumed_def)

lemma find_first_None:
  "find_first pat i cs = None \<longleftrightarrow> (\<forall>k \<le> length cs. pat (drop k cs) = None)"
proof (induction cs arbitrary: i)
  case Nil
  then show ?case by auto
next
  case (Cons c cs)
  have "(\<forall>k \<le> length (c # cs). pat (drop k (c # cs)) = None)
      \<longleftrightarrow> pat (c # cs) = None \<and> (\<forall>k \<le> length cs. pat (drop k cs) = None)"
    (is "?L \<longleftrightarrow> ?R")
  proof
    assume l: ?L
    have "pat (drop 0 (c # cs)) = None" using l by blast
    moreover have "pat (drop k cs) = None" if "k \<le> length cs" for k
      using l [rule_format, of "Suc k"] that by simp
    ultimately show ?R by simp
  next
    assume r: ?R
    show ?L
    proof (intro allI impI)
      fix k assume "k \<le> length (c # cs)"
      then show "pat (drop k (c # cs)) = None"
        using r by (cases k) auto
    qed
  qed
  with Cons.IH [of "i + 1"] show ?case
    by (auto split: option.splits)
qed

lemma find_first_Some:
  "find_first pat i cs = Some (j, m) \<longleftrightarrow>
     (\<exists>k \<le> length cs. j = i + k \<and> pat (drop k cs) = Some m
        \<and> (\<forall>k' < k. pat (drop k' cs) = None))"
proof (induction cs arbitrary: i)
  case Nil
  then show ?case by auto
next
  case (Cons c cs)
  show ?case
  proof (cases "pat (c # cs)")
    case (Some m')
    have "(\<exists>k \<le> length (c # cs). j = i + k \<and> pat (drop k (c # cs)) = Some m
        \<and> (\<forall>k' < k. pat (drop k' (c # cs)) = None)) \<longleftrightarrow> j = i \<and> m = m'"
    proof
      assume "\<exists>k \<le> length (c # cs). j = i + k \<and> pat (drop k (c # cs)) = Some m
        \<and> (\<forall>k' < k. pat (drop k' (c # cs)) = None)"
      then obtain k where k: "j = i + k" "pat (drop k (c # cs)) = Some m"
        "\<forall>k' < k. pat (drop k' (c # cs)) = None" by blast
      have "k = 0"
      proof (rule ccontr)
        assume "k \<noteq> 0"
        then have "pat (drop 0 (c # cs)) = None" using k(3) by blast
        with Some show False by simp
      qed
      with k Some show "j = i \<and> m = m'" by simp
    next
      assume "j = i \<and> m = m'"
      with Some show "\<exists>k \<le> length (c # cs). j = i + k \<and> pat (drop k (c # cs)) = Some m
        \<and> (\<forall>k' < k. pat (drop k' (c # cs)) = None)"
        by (intro exI [of _ 0]) simp
    qed
    with Some show ?thesis by auto
  next
    case None
    have "(\<exists>k \<le> length (c # cs). j = i + k \<and> pat (drop k (c # cs)) = Some m
        \<and> (\<forall>k' < k. pat (drop k' (c # cs)) = None))
      \<longleftrightarrow> (\<exists>k \<le> length cs. j = (i + 1) + k \<and> pat (drop k cs) = Some m
        \<and> (\<forall>k' < k. pat (drop k' cs) = None))" (is "?L \<longleftrightarrow> ?R")
    proof
      assume ?L
      then obtain k where k: "k \<le> length (c # cs)" "j = i + k"
        "pat (drop k (c # cs)) = Some m" "\<forall>k' < k. pat (drop k' (c # cs)) = None" by blast
      from k(3) None obtain k0 where k0: "k = Suc k0" by (cases k) auto
      have "pat (drop k' cs) = None" if "k' < k0" for k'
        using k(4) [rule_format, of "Suc k'"] that k0 by simp
      with k k0 show ?R by (intro exI [of _ k0]) simp
    next
      assume ?R
      then obtain k where k: "k \<le> length cs" "j = (i + 1) + k"
        "pat (drop k cs) = Some m" "\<forall>k' < k. pat (drop k' cs) = None" by blast
      have "pat (drop k' (c # cs)) = None" if "k' < Suc k" for k'
        using that None k(4) by (cases k') auto
      with k show ?L by (intro exI [of _ "Suc k"]) simp
    qed
    with None Cons.IH [of "i + 1"] show ?thesis by simp
  qed
qed

lemma index_from_first:
  "k \<le> length cs \<Longrightarrow> starts_with (drop k cs) needle \<Longrightarrow>
   (\<forall>k' < k. \<not> starts_with (drop k' cs) needle) \<Longrightarrow> index_from i cs needle = int (i + k)"
proof (induction cs arbitrary: i k)
  case Nil
  then show ?case by (cases needle) auto
next
  case (Cons c cs)
  show ?case
  proof (cases k)
    case 0
    with Cons.prems show ?thesis by simp
  next
    case (Suc k0)
    have n: "\<not> starts_with (c # cs) needle"
      using Cons.prems(3) [rule_format, of 0] Suc by simp
    have "\<forall>k' < k0. \<not> starts_with (drop k' cs) needle"
    proof (intro allI impI)
      fix k' assume "k' < k0"
      then show "\<not> starts_with (drop k' cs) needle"
        using Cons.prems(3) [rule_format, of "Suc k'"] Suc by simp
    qed
    with Cons.IH [of k0 "i + 1"] Cons.prems Suc n show ?thesis by simp
  qed
qed

lemma wireBeginPattern_Some:
  "wireBeginPattern cs \<noteq> None \<longleftrightarrow>
     (\<exists>ws rest. (\<forall>c \<in> set ws. is_space c) \<and> cs = ''Wire.begin'' @ ws @ ''('' @ rest)"
proof
  assume "wireBeginPattern cs \<noteq> None"
  then obtain r1 r2 where r: "cs = ''Wire.begin'' @ r1" "dropWhile is_space r1 = ''('' @ r2"
    by (auto simp: wireBeginPattern_def lit_Some split: Option.bind_splits)
  have "r1 = takeWhile is_space r1 @ dropWhile is_space r1" by simp
  with r have "cs = ''Wire.begin'' @ takeWhile is_space r1 @ ''('' @ r2" by simp
  moreover have "\<forall>c \<in> set (takeWhile is_space r1). is_space c"
    by (auto dest: set_takeWhileD)
  ultimately show "\<exists>ws rest. (\<forall>c \<in> set ws. is_space c) \<and> cs = ''Wire.begin'' @ ws @ ''('' @ rest"
    by blast
next
  assume "\<exists>ws rest. (\<forall>c \<in> set ws. is_space c) \<and> cs = ''Wire.begin'' @ ws @ ''('' @ rest"
  then obtain ws rest where w: "\<forall>c \<in> set ws. is_space c" "cs = ''Wire.begin'' @ ws @ ''('' @ rest"
    by blast
  have "dropWhile is_space (ws @ ''('' @ rest) = ''('' @ rest"
    using w(1) by (simp add: dropWhile_append2 is_space_def)
  then show "wireBeginPattern cs \<noteq> None"
    unfolding wireBeginPattern_def w(2)
    by (simp add: lit_def)
qed


lemma wireUsePattern_Some_D:
  assumes "wireUsePattern cs = Some m"
  shows "m \<in> set wire_calls \<and> starts_with cs m"
proof -
  from assms obtain r1 r2 where r1: "lit ''Wire.'' cs = Some r1"
    and r2: "(case lit ''beginTransmission'' r1 of
               Some r \<Rightarrow> Some r
             | None \<Rightarrow>
                 (case lit ''requestFrom'' r1 of
                    Some r \<Rightarrow> Some r
                  | None \<Rightarrow>
                      (case lit ''write'' r1 of
                         Some r \<Rightarrow> Some r
                       | None \<Rightarrow> lit ''read'' r1))) = Some r2"
    and m: "m = consumed cs r2"
    unfolding wireUsePattern_def by (auto split: Option.bind_splits)
  from r1 have cs: "cs = ''Wire.'' @ r1" by (simp only: lit_Some)
  from r2 have "r1 = ''beginTransmission'' @ r2 \<or> r1 = ''requestFrom'' @ r2
      \<or> r1 = ''write'' @ r2 \<or> r1 = ''read'' @ r2"
    by (auto simp only: lit_Some split: option.splits)
  then consider "cs = ''Wire.beginTransmission'' @ r2" | "cs = ''Wire.requestFrom'' @ r2"
    | "cs = ''Wire.write'' @ r2" | "cs = ''Wire.read'' @ r2"
    using cs by auto
  then show ?thesis
  proof cases
    case 1
    have "m = ''Wire.beginTransmission''" unfolding m 1 by (rule consumed_append)
    then show ?thesis using 1 by (simp add: wire_calls_def starts_with_iff)
  next
    case 2
    have "m = ''Wire.requestFrom''" unfolding m 2 by (rule consumed_append)
    then show ?thesis using 2 by (simp add: wire_calls_def starts_with_iff)
  next
    case 3
    have "m = ''Wire.write''" unfolding m 3 by (rule consumed_append)
    then show ?thesis using 3 by (simp add: wire_calls_def starts_with_iff)
  next
    case 4
    have "m = ''Wire.read''" unfolding m 4 by (rule consumed_append)
    then show ?thesis using 4 by (simp add: wire_calls_def starts_with_iff)
  qed
qed

lemma wireUsePattern_Some_I:
  assumes "m \<in> set wire_calls" and "starts_with cs m"
  shows "wireUsePattern cs = Some m"
proof -
  from assms(2) obtain r where cs: "cs = m @ r" by (auto simp: starts_with_iff)
  from assms(1) consider "m = ''Wire.beginTransmission''" | "m = ''Wire.requestFrom''"
    | "m = ''Wire.write''" | "m = ''Wire.read''"
    by (auto simp: wire_calls_def)
  then show ?thesis
  proof cases
    case 1
    show ?thesis unfolding cs 1 wireUsePattern_def
      by (simp add: lit_def consumed_def)
  next
    case 2
    show ?thesis unfolding cs 2 wireUsePattern_def
      by (simp add: lit_def consumed_def)
  next
    case 3
    show ?thesis unfolding cs 3 wireUsePattern_def
      by (simp add: lit_def consumed_def)
  next
    case 4
    show ?thesis unfolding cs 4 wireUsePattern_def
      by (simp add: lit_def consumed_def)
  qed
qed

lemma wireUsePattern_Some:
  "wireUsePattern cs = Some m \<longleftrightarrow> m \<in> set wire_calls \<and> starts_with cs m"
  using wireUsePattern_Some_D wireUsePattern_Some_I by blast

lemma address_loop_codes:
  "d \<in> set (address_loop text pa U ms) \<Longrightarrow>
     d_code d \<in> {''reserved-i2c-address'', ''invalid-i2c-address'', ''duplicate-i2c-address''}"
  by (induction "text" pa U ms rule: address_loop.induct) (auto simp: Let_def split: if_splits)

lemma has_wire_begin_iff:
  "find_first wireBeginPattern 0 text = None \<longleftrightarrow> (\<forall>k. \<not> wire_begin_at k text)"
proof
  assume n: "find_first wireBeginPattern 0 text = None"
  show "\<forall>k. \<not> wire_begin_at k text"
  proof (intro allI notI)
    fix k assume w: "wire_begin_at k text"
    then have p: "wireBeginPattern (drop k text) \<noteq> None"
      unfolding wire_begin_at_def wireBeginPattern_Some .
    have "k \<le> length text"
    proof (rule ccontr)
      assume "\<not> k \<le> length text"
      then have "drop k text = []" by simp
      with w show False by (simp add: wire_begin_at_def)
    qed
    with n p show False by (simp add: find_first_None)
  qed
next
  assume a: "\<forall>k. \<not> wire_begin_at k text"
  have "wireBeginPattern (drop k text) = None" for k
  proof (rule ccontr)
    assume "wireBeginPattern (drop k text) \<noteq> None"
    then have "wire_begin_at k text"
      unfolding wire_begin_at_def wireBeginPattern_Some .
    with a show False by simp
  qed
  then show "find_first wireBeginPattern 0 text = None"
    by (simp add: find_first_None)
qed

text \<open>
  Claim C6, as the code has it. When the text contains a member call of \<open>Wire\<close>
  (\<open>Wire.beginTransmission\<close>, \<open>Wire.requestFrom\<close>, \<open>Wire.write\<close> or \<open>Wire.read\<close>) and no
  \<open>Wire.begin\<close> followed by optional white space and an opening parenthesis,
  \<open>validateI2CUsage\<close> adds the diagnostics of the address loop, none of which has the code
  \<open>missing-wire-begin\<close>, and then exactly one diagnostic with that code, of error
  severity, at the first index where one of the four calls occurs, as long as that call.
\<close>

theorem missing_wire_begin_once:
  assumes "\<exists>k. \<exists>s \<in> set wire_calls. occurs_at s k text"
    and "\<forall>k. \<not> wire_begin_at k text"
  shows "\<exists>i s. s \<in> set wire_calls \<and> occurs_at s i text
      \<and> (\<forall>k < i. \<forall>s' \<in> set wire_calls. \<not> occurs_at s' k text)
      \<and> validateI2CUsage text positionAt diagnostics =
          diagnostics
          @ address_loop text positionAt {} (exec_all addressPattern 0 text)
          @ [\<lparr>d_severity = DS_Error, d_range = range_at positionAt (int i) (length s),
               d_source = ''Sentinel'', d_code = ''missing-wire-begin''\<rparr>]
      \<and> (\<forall>d \<in> set (address_loop text positionAt {} (exec_all addressPattern 0 text)).
            d_code d \<noteq> ''missing-wire-begin'')"
proof -
  from assms(1) obtain k0 s0 where s0: "s0 \<in> set wire_calls" "occurs_at s0 k0 text"
    by blast
  have s0ne: "s0 \<noteq> []" using s0(1) by (auto simp: wire_calls_def)
  have k0: "k0 \<le> length text"
  proof (rule ccontr)
    assume "\<not> k0 \<le> length text"
    then have "drop k0 text = []" by simp
    with s0(2) s0ne show False by (cases s0) (simp_all add: occurs_at_def)
  qed
  have "wireUsePattern (drop k0 text) = Some s0"
    using s0 by (intro wireUsePattern_Some_I) (simp_all add: occurs_at_def)
  with k0 have "find_first wireUsePattern 0 text \<noteq> None"
    by (auto simp: find_first_None)
  then obtain i s where f: "find_first wireUsePattern 0 text = Some (i, s)"
    by (cases "find_first wireUsePattern 0 text") auto
  then have i: "i \<le> length text" "wireUsePattern (drop i text) = Some s"
    "\<forall>k' < i. wireUsePattern (drop k' text) = None"
    by (auto simp: find_first_Some)
  from i(2) have s: "s \<in> set wire_calls" "occurs_at s i text"
    by (auto dest: wireUsePattern_Some_D simp: occurs_at_def)
  have first: "\<not> occurs_at s' k text" if "k < i" "s' \<in> set wire_calls" for k s'
  proof
    assume "occurs_at s' k text"
    with that(2) have "wireUsePattern (drop k text) = Some s'"
      by (intro wireUsePattern_Some_I) (simp_all add: occurs_at_def)
    with i(3) that(1) show False by simp
  qed
  have idx: "indexOf text s = int i"
  proof -
    have "\<forall>k' < i. \<not> starts_with (drop k' text) s"
      using first s(1) by (auto simp: occurs_at_def)
    with i(1) s(2) show ?thesis
      unfolding indexOf_def occurs_at_def
      using index_from_first [of i "text" s 0] by simp
  qed
  have nb: "find_first wireBeginPattern 0 text = None"
    using assms(2) by (rule has_wire_begin_iff [THEN iffD2])
  have w: "wire_begin_check text positionAt =
      [\<lparr>d_severity = DS_Error, d_range = range_at positionAt (int i) (length s),
        d_source = ''Sentinel'', d_code = ''missing-wire-begin''\<rparr>]"
    by (simp add: wire_begin_check_def Let_def f nb idx)
  have c: "\<forall>d \<in> set (address_loop text positionAt {} (exec_all addressPattern 0 text)).
            d_code d \<noteq> ''missing-wire-begin''"
  proof
    fix d assume "d \<in> set (address_loop text positionAt {} (exec_all addressPattern 0 text))"
    from address_loop_codes [OF this] show "d_code d \<noteq> ''missing-wire-begin''"
      by auto
  qed
  have v: "validateI2CUsage text positionAt diagnostics =
          diagnostics
          @ address_loop text positionAt {} (exec_all addressPattern 0 text)
          @ [\<lparr>d_severity = DS_Error, d_range = range_at positionAt (int i) (length s),
               d_source = ''Sentinel'', d_code = ''missing-wire-begin''\<rparr>]"
    unfolding validateI2CUsage_def w ..
  from s first v c show ?thesis by blast
qed

theorem missing_wire_begin_once_witness:
  "validateI2CUsage ''Wire.beginTransmission(0x03);'' single_line []
   = [\<lparr>d_severity = DS_Error,
        d_range = \<lparr>r_start = \<lparr>p_line = 0, p_character = 23\<rparr>,
                   r_end = \<lparr>p_line = 0, p_character = 27\<rparr>\<rparr>,
        d_source = ''Sentinel'', d_code = ''reserved-i2c-address''\<rparr>,
      \<lparr>d_severity = DS_Error,
        d_range = \<lparr>r_start = \<lparr>p_line = 0, p_character = 0\<rparr>,
                   r_end = \<lparr>p_line = 0, p_character = 22\<rparr>\<rparr>,
        d_source = ''Sentinel'', d_code = ''missing-wire-begin''\<rparr>]"
proof -
  let ?text = "''Wire.beginTransmission(0x03);''"
  have o: "occurs_at ''Wire.beginTransmission'' 0 ?text"
    by code_simp
  have h1: "\<exists>k. \<exists>s \<in> set wire_calls. occurs_at s k ?text"
    using o by (intro exI [of _ 0] bexI [of _ "''Wire.beginTransmission''"])
      (simp_all add: wire_calls_def)
  have "find_first wireBeginPattern 0 ?text = None"
    by code_simp
  then have h2: "\<forall>k. \<not> wire_begin_at k ?text"
    by (rule has_wire_begin_iff [THEN iffD1])
  from missing_wire_begin_once [OF h1 h2, of single_line "[]"]
  obtain i s where s: "s \<in> set wire_calls" "occurs_at s i ?text"
    and first: "\<forall>k < i. \<forall>s' \<in> set wire_calls. \<not> occurs_at s' k ?text"
    and v: "validateI2CUsage ?text single_line [] =
          [] @ address_loop ?text single_line {} (exec_all addressPattern 0 ?text)
          @ [\<lparr>d_severity = DS_Error, d_range = range_at single_line (int i) (length s),
               d_source = ''Sentinel'', d_code = ''missing-wire-begin''\<rparr>]"
    by blast
  have i0: "i = 0"
  proof (rule ccontr)
    assume "i \<noteq> 0"
    then have "0 < i" by simp
    with first have "\<not> occurs_at ''Wire.beginTransmission'' 0 ?text"
      by (auto simp: wire_calls_def)
    with o show False by simp
  qed
  have n: "\<not> occurs_at ''Wire.requestFrom'' 0 ?text" "\<not> occurs_at ''Wire.write'' 0 ?text"
    "\<not> occurs_at ''Wire.read'' 0 ?text"
    by code_simp+
  with s i0 have s0: "s = ''Wire.beginTransmission''"
    by (auto simp: wire_calls_def)
  have a: "address_loop ?text single_line {} (exec_all addressPattern 0 ?text)
     = [\<lparr>d_severity = DS_Error,
        d_range = \<lparr>r_start = \<lparr>p_line = 0, p_character = 23\<rparr>,
                   r_end = \<lparr>p_line = 0, p_character = 27\<rparr>\<rparr>,
        d_source = ''Sentinel'', d_code = ''reserved-i2c-address''\<rparr>]"
    by code_simp
  have r: "range_at single_line (int 0) (length ''Wire.beginTransmission'')
     = \<lparr>r_start = \<lparr>p_line = 0, p_character = 0\<rparr>,
        r_end = \<lparr>p_line = 0, p_character = 22\<rparr>\<rparr>"
    by code_simp
  show ?thesis
    unfolding v i0 s0 a r by simp
qed

text \<open>
  Claim C6 as stated asks only that \<open>Wire.begin(\<close> does not occur. The text
  \<open>Wire.begin ();Wire.read();\<close> contains a member call and no \<open>Wire.begin(\<close>, and gets no
  diagnostic: the pattern of the code allows white space before the parenthesis.
\<close>

theorem missing_wire_begin_spaced_counterexample:
  "occurs_at ''Wire.read'' 14 ''Wire.begin ();Wire.read();''
   \<and> ''Wire.read'' \<in> set wire_calls
   \<and> indexOf ''Wire.begin ();Wire.read();'' ''Wire.begin('' = - 1
   \<and> validateI2CUsage ''Wire.begin ();Wire.read();'' single_line [] = []"
  by code_simp

subsection \<open>validatePWMUsage on the two calls of the specification\<close>

lemma space_not_word: "is_space c \<Longrightarrow> \<not> is_word c"
  by (auto simp: is_space_def is_word_def)

lemma digit_not_a: "is_digit c \<Longrightarrow> c \<noteq> CHR ''a''"
  by (auto simp: is_digit_def)

lemma space_not_a: "is_space c \<Longrightarrow> c \<noteq> CHR ''a''"
  by (auto simp: is_space_def)

lemma dropWhile_word_paren:
  assumes "dropWhile is_space r1 = CHR ''('' # r2"
  shows "dropWhile is_word r1 = r1"
proof (cases r1)
  case Nil
  with assms show ?thesis by simp
next
  case (Cons c r')
  have "\<not> is_word c"
  proof (cases "is_space c")
    case True
    then show ?thesis by (rule space_not_word)
  next
    case False
    with assms Cons have "c = CHR ''(''" by simp
    then show ?thesis by (simp add: is_word_def)
  qed
  with Cons show ?thesis by simp
qed

lemma pwmPattern_head:
  assumes "pwmPattern t = Some x"
  shows "\<exists>r. t = ''analogWrite'' @ r"
  using assms unfolding pwmPattern_def
  by (auto simp: lit_Some split: Option.bind_splits)

lemma pwmPattern_paren:
  assumes "pwmPattern t = Some x"
  shows "\<exists>r. dropWhile is_space (dropWhile is_word t) = CHR ''('' # r"
proof -
  from assms obtain r1 r2 where t: "t = ''analogWrite'' @ r1"
    and p: "dropWhile is_space r1 = ''('' @ r2"
    unfolding pwmPattern_def
    by (auto simp: lit_Some split: Option.bind_splits)
  from p have "dropWhile is_word r1 = r1"
    by (intro dropWhile_word_paren [of r1 r2]) simp
  then have "dropWhile is_word t = r1"
    unfolding t by (simp add: is_word_def)
  with p show ?thesis by simp
qed

lemma pwmPattern_shape:
  assumes "pwmPattern cs = Some (m0, g1, g2)"
  shows "\<exists>s1 s2 s3 s4 s5 r.
      cs = m0 @ r
      \<and> m0 = ''analogWrite'' @ (s1 @ ''('' @ s2 @ g1 @ s3 @ '','' @ s4) @ g2 @ (s5 @ '')'')
      \<and> (\<forall>c \<in> set s1. is_space c) \<and> (\<forall>c \<in> set s2. is_space c)
      \<and> (\<forall>c \<in> set s3. is_space c) \<and> (\<forall>c \<in> set s4. is_space c)
      \<and> (\<forall>c \<in> set s5. is_space c)
      \<and> (\<forall>c \<in> set g1. is_digit c) \<and> (\<forall>c \<in> set g2. is_word c) \<and> g2 \<noteq> []"
proof -
  from assms obtain r1 r2 r4 r5 r7 r8 where
    a: "cs = ''analogWrite'' @ r1"
    and b: "dropWhile is_space r1 = ''('' @ r2"
    and c: "g1 = takeWhile is_digit (dropWhile is_space r2)"
    and d: "r4 = dropWhile is_digit (dropWhile is_space r2)"
    and e: "dropWhile is_space r4 = '','' @ r5"
    and f: "g2 = takeWhile is_word (dropWhile is_space r5)" "g2 \<noteq> []"
    and g: "r7 = dropWhile is_word (dropWhile is_space r5)"
    and h: "dropWhile is_space r7 = '')'' @ r8"
    and m: "m0 = consumed cs r8"
    unfolding pwmPattern_def
    by (auto simp: lit_Some Let_def split: Option.bind_splits if_splits)
  define s1 where "s1 = takeWhile is_space r1"
  define s2 where "s2 = takeWhile is_space r2"
  define s3 where "s3 = takeWhile is_space r4"
  define s4 where "s4 = takeWhile is_space r5"
  define s5 where "s5 = takeWhile is_space r7"
  have 1: "r1 = s1 @ ''('' @ r2"
    using takeWhile_dropWhile_id [of is_space r1] b s1_def by simp
  have 2: "r2 = s2 @ g1 @ r4"
    using takeWhile_dropWhile_id [of is_space r2]
      takeWhile_dropWhile_id [of is_digit "dropWhile is_space r2"] c d s2_def by simp
  have 3: "r4 = s3 @ '','' @ r5"
    using takeWhile_dropWhile_id [of is_space r4] e s3_def by simp
  have 4: "r5 = s4 @ g2 @ r7"
    using takeWhile_dropWhile_id [of is_space r5]
      takeWhile_dropWhile_id [of is_word "dropWhile is_space r5"] f g s4_def by simp
  have 5: "r7 = s5 @ '')'' @ r8"
    using takeWhile_dropWhile_id [of is_space r7] h s5_def by simp
  let ?m = "''analogWrite'' @ (s1 @ ''('' @ s2 @ g1 @ s3 @ '','' @ s4) @ g2 @ (s5 @ '')'')"
  have cs: "cs = ?m @ r8"
    unfolding a by (subst 1, subst 2, subst 3, subst 4, subst 5) simp
  have m0: "m0 = ?m"
    unfolding m by (subst cs) (rule consumed_append)
  have sp: "\<forall>c \<in> set s1. is_space c" "\<forall>c \<in> set s2. is_space c" "\<forall>c \<in> set s3. is_space c"
    "\<forall>c \<in> set s4. is_space c" "\<forall>c \<in> set s5. is_space c"
    unfolding s1_def s2_def s3_def s4_def s5_def by (auto dest: set_takeWhileD)
  have dg: "\<forall>c \<in> set g1. is_digit c" "\<forall>c \<in> set g2. is_word c"
    unfolding c f by (auto dest: set_takeWhileD)
  from cs m0 sp dg f(2) show ?thesis by blast
qed


lemma suffix_literal_no_start:
  assumes "suffix a ''analogWrite''" and "a \<noteq> []" and "a \<noteq> ''analogWrite''"
  shows "pwmPattern (a @ t) = None"
proof (rule ccontr)
  assume "pwmPattern (a @ t) \<noteq> None"
  then obtain x where "pwmPattern (a @ t) = Some x" by auto
  then obtain r where "a @ t = ''analogWrite'' @ r" by (auto dest: pwmPattern_head)
  with assms show False
    by (auto simp: suffix_Cons)
qed

lemma head_no_start:
  assumes "v \<noteq> []" and "\<forall>c \<in> set v. c \<noteq> CHR ''a''"
  shows "pwmPattern (v @ t) = None"
proof (rule ccontr)
  assume "pwmPattern (v @ t) \<noteq> None"
  then obtain x where "pwmPattern (v @ t) = Some x" by auto
  then obtain r where "v @ t = ''analogWrite'' @ r" by (auto dest: pwmPattern_head)
  with assms show False by (cases v) auto
qed

lemma word_run_no_start:
  assumes "\<forall>c \<in> set g. is_word c" and "\<forall>c \<in> set s5. is_space c"
  shows "pwmPattern (g @ s5 @ '')'' @ t) = None"
proof (rule ccontr)
  assume "pwmPattern (g @ s5 @ '')'' @ t) \<noteq> None"
  then obtain x where "pwmPattern (g @ s5 @ '')'' @ t) = Some x" by auto
  then obtain r where r: "dropWhile is_space (dropWhile is_word (g @ s5 @ '')'' @ t))
      = CHR ''('' # r"
    by (auto dest: pwmPattern_paren)
  have 1: "dropWhile is_word (g @ s5 @ '')'' @ t) = dropWhile is_word (s5 @ '')'' @ t)"
    using assms(1) by (simp add: dropWhile_append2)
  have 2: "dropWhile is_word (s5 @ '')'' @ t) = s5 @ '')'' @ t"
    using assms(2) by (cases s5) (auto simp: is_word_def dest: space_not_word)
  have 3: "dropWhile is_space (s5 @ '')'' @ t) = '')'' @ t"
    using assms(2) by (simp add: dropWhile_append2 is_space_def)
  from r show False unfolding 1 2 3 by simp
qed

lemma suffix_cases:
  assumes "suffix v (xs @ ys)" and "v \<noteq> xs @ ys"
  shows "suffix v ys \<or> (\<exists>x'. suffix x' xs \<and> x' \<noteq> [] \<and> x' \<noteq> xs \<and> v = x' @ ys)"
proof -
  from assms(1) have "suffix v ys \<or> (\<exists>x'. suffix x' xs \<and> v = x' @ ys)"
    by (auto simp: suffix_append)
  then show ?thesis
  proof
    assume "suffix v ys"
    then show ?thesis by simp
  next
    assume "\<exists>x'. suffix x' xs \<and> v = x' @ ys"
    then obtain x' where x: "suffix x' xs" "v = x' @ ys" by blast
    show ?thesis
    proof (cases "x' = []")
      case True
      with x show ?thesis by simp
    next
      case False
      with x assms(2) show ?thesis by auto
    qed
  qed
qed

lemma suffix_nonempty:
  assumes "suffix v ys" and "v \<noteq> []"
  shows "\<exists>y'. suffix y' ys \<and> y' \<noteq> [] \<and> v = y' @ []"
  using assms by auto

lemma pwmPattern_no_overlap:
  assumes "pwmPattern cs = Some (m0, g)" and "0 < j" and "j < length m0"
  shows "pwmPattern (drop j cs) = None"
proof -
  obtain g1 g2 where g: "g = (g1, g2)" by (cases g)
  from pwmPattern_shape [OF assms(1) [unfolded g]]
  obtain s1 s2 s3 s4 s5 r where cs: "cs = m0 @ r"
    and m0: "m0 = ''analogWrite'' @ (s1 @ ''('' @ s2 @ g1 @ s3 @ '','' @ s4) @ g2 @ (s5 @ '')'')"
    and sp: "\<forall>c \<in> set s1. is_space c" "\<forall>c \<in> set s2. is_space c" "\<forall>c \<in> set s3. is_space c"
      "\<forall>c \<in> set s4. is_space c" "\<forall>c \<in> set s5. is_space c"
    and dg: "\<forall>c \<in> set g1. is_digit c" "\<forall>c \<in> set g2. is_word c"
    by blast
  let ?M = "s1 @ ''('' @ s2 @ g1 @ s3 @ '','' @ s4"
  let ?E = "s5 @ '')''"
  define v where "v = drop j m0"
  have d: "drop j cs = v @ r"
    unfolding cs v_def using assms(3) by simp
  have lv: "length v = length m0 - j"
    unfolding v_def by simp
  have v: "suffix v m0" "v \<noteq> []" "v \<noteq> m0"
  proof -
    show "suffix v m0" unfolding v_def by (rule suffix_drop)
    show "v \<noteq> []" using lv assms(3) by auto
    show "v \<noteq> m0" using lv assms(2,3) by auto
  qed
  have noaM: "\<forall>c \<in> set ?M. c \<noteq> CHR ''a''"
  proof
    fix c assume "c \<in> set ?M"
    then consider "c \<in> set s1" | "c \<in> set s2" | "c \<in> set s3" | "c \<in> set s4"
      | "c \<in> set g1" | "c = CHR ''(''" | "c = CHR '',''"
      by auto
    then show "c \<noteq> CHR ''a''"
    proof cases
      case 1
      with sp(1) have "is_space c" by (rule bspec)
      then show ?thesis by (rule space_not_a)
    next
      case 2
      with sp(2) have "is_space c" by (rule bspec)
      then show ?thesis by (rule space_not_a)
    next
      case 3
      with sp(3) have "is_space c" by (rule bspec)
      then show ?thesis by (rule space_not_a)
    next
      case 4
      with sp(4) have "is_space c" by (rule bspec)
      then show ?thesis by (rule space_not_a)
    next
      case 5
      with dg(1) have "is_digit c" by (rule bspec)
      then show ?thesis by (rule digit_not_a)
    next
      case 6
      then show ?thesis by simp
    next
      case 7
      then show ?thesis by simp
    qed
  qed
  have noaE: "\<forall>c \<in> set ?E. c \<noteq> CHR ''a''"
  proof
    fix c assume "c \<in> set ?E"
    then consider "c \<in> set s5" | "c = CHR '')''"
      by auto
    then show "c \<noteq> CHR ''a''"
    proof cases
      case 1
      with sp(5) have "is_space c" by (rule bspec)
      then show ?thesis by (rule space_not_a)
    next
      case 2
      then show ?thesis by simp
    qed
  qed
  from suffix_cases [of v "''analogWrite''" "?M @ g2 @ ?E"] v(1,3)
  consider (lit) a where "suffix a ''analogWrite''" "a \<noteq> []" "a \<noteq> ''analogWrite''"
      "v = a @ ?M @ g2 @ ?E"
    | (rest) "suffix v (?M @ g2 @ ?E)"
    unfolding m0 by blast
  then show ?thesis
  proof cases
    case lit
    show ?thesis
      unfolding d lit(4) using suffix_literal_no_start [OF lit(1-3), of "?M @ g2 @ ?E @ r"]
      by simp
  next
    case rest
    show ?thesis
    proof (cases "v = ?M @ g2 @ ?E")
      case True
      have "pwmPattern (?M @ (g2 @ ?E @ r)) = None"
        by (rule head_no_start [OF _ noaM]) simp
      then show ?thesis unfolding d True by simp
    next
      case False
      from suffix_cases [OF rest False]
      consider (mid) x where "suffix x ?M" "x \<noteq> []" "v = x @ g2 @ ?E"
        | (tail) "suffix v (g2 @ ?E)"
        by blast
      then show ?thesis
      proof cases
        case mid
        have "set x \<subseteq> set ?M" using mid(1) by (rule set_mono_suffix)
        with noaM have "\<forall>c \<in> set x. c \<noteq> CHR ''a''" by blast
        from head_no_start [OF mid(2) this, of "g2 @ ?E @ r"]
        show ?thesis unfolding d mid(3) by simp
      next
        case tail
        show ?thesis
        proof (cases "v = g2 @ ?E")
          case True
          from word_run_no_start [OF dg(2) sp(5), of r]
          show ?thesis unfolding d True by simp
        next
          case False
          from suffix_cases [OF tail False]
          consider (word) x where "suffix x g2" "x \<noteq> []" "v = x @ ?E"
            | (close) "suffix v ?E"
            by blast
          then show ?thesis
          proof cases
            case word
            have "set x \<subseteq> set g2" using word(1) by (rule set_mono_suffix)
            with dg(2) have "\<forall>c \<in> set x. is_word c" by blast
            from word_run_no_start [OF this sp(5), of r]
            show ?thesis unfolding d word(3) by simp
          next
            case close
            have "set v \<subseteq> set ?E" using close by (rule set_mono_suffix)
            with noaE have "\<forall>c \<in> set v. c \<noteq> CHR ''a''" by blast
            from head_no_start [OF v(2) this, of r]
            show ?thesis unfolding d .
          qed
        qed
      qed
    qed
  qed
qed

lemma pwmPattern_length:
  assumes "pwmPattern cs = Some (m0, g)"
  shows "m0 \<noteq> [] \<and> length m0 \<le> length cs"
proof -
  obtain g1 g2 where g: "g = (g1, g2)" by (cases g)
  from pwmPattern_shape [OF assms [unfolded g]]
  obtain r m' where "cs = m0 @ r" "m0 = ''analogWrite'' @ m'"
    by blast
  then show ?thesis by auto
qed


lemma exec_all_finds:
  assumes no_overlap: "\<And>cs m0 g j. pat cs = Some (m0, g) \<Longrightarrow> 0 < j \<Longrightarrow> j < length m0
      \<Longrightarrow> pat (drop j cs) = None"
    and len: "\<And>cs m0 g. pat cs = Some (m0, g) \<Longrightarrow> m0 \<noteq> [] \<and> length m0 \<le> length cs"
    and here: "pat cs2 = Some (m0, g)"
  shows "\<exists>before after. exec_all pat i (cs1 @ cs2) = before @ (i + length cs1, m0, g) # after"
proof (induction "length cs1" arbitrary: cs1 i rule: less_induct)
  case less
  from len [OF here] have ne: "cs2 \<noteq> []" by auto
  show ?case
  proof (cases cs1)
    case Nil
    from ne obtain c cs where "cs2 = c # cs" by (cases cs2) auto
    with here Nil have "exec_all pat i (cs1 @ cs2)
        = [] @ (i + length cs1, m0, g) # exec_all pat (i + length m0) (drop (length m0 - 1) cs)"
      by simp
    then show ?thesis by blast
  next
    case (Cons c cs1')
    show ?thesis
    proof (cases "pat (c # cs1' @ cs2)")
      case None
      from less [of cs1' "i + 1"] Cons
      obtain before after where
        "exec_all pat (i + 1) (cs1' @ cs2) = before @ (i + 1 + length cs1', m0, g) # after"
        by auto
      with None Cons have "exec_all pat i (cs1 @ cs2)
          = before @ (i + length cs1, m0, g) # after"
        by simp
      then show ?thesis by blast
    next
      case (Some x)
      obtain m' g' where x: "x = (m', g')" by (cases x)
      from len [OF Some [unfolded x]] have m': "m' \<noteq> []" by simp
      have le: "length m' \<le> length cs1"
      proof (rule ccontr)
        assume "\<not> length m' \<le> length cs1"
        then have "length cs1 < length m'" by simp
        moreover have "0 < length cs1" using Cons by simp
        ultimately have "pat (drop (length cs1) (c # cs1' @ cs2)) = None"
          by (rule no_overlap [OF Some [unfolded x], rotated])
        then have "pat cs2 = None" using Cons by simp
        with here show False by simp
      qed
      define n where "n = length m' - 1"
      have n: "n \<le> length cs1'" "length m' = Suc n"
        using le m' Cons by (auto simp: n_def)
      have dr: "drop n (cs1' @ cs2) = drop n cs1' @ cs2"
        using n(1) by simp
      have "length (drop n cs1') < length cs1"
        using Cons by simp
      from less [OF this, of "i + length m'"]
      obtain before after where
        "exec_all pat (i + length m') (drop n cs1' @ cs2)
           = before @ (i + length m' + length (drop n cs1'), m0, g) # after"
        by auto
      moreover have "i + length m' + length (drop n cs1') = i + length cs1"
        using n Cons by simp
      ultimately have "exec_all pat i (cs1 @ cs2)
          = ((i, m', g') # before) @ (i + length cs1, m0, g) # after"
        using Some x Cons dr by (simp add: n_def)
      then show ?thesis by blast
    qed
  qed
qed

lemma pwm_finds:
  assumes "pwmPattern cs2 = Some (m0, g)"
  shows "\<exists>before after. exec_all pwmPattern 0 (cs1 @ cs2) = before @ (length cs1, m0, g) # after"
  using exec_all_finds [of pwmPattern cs2 m0 g 0 cs1, OF pwmPattern_no_overlap pwmPattern_length assms]
  by simp

lemma pwmPattern_2_128:
  "pwmPattern (''analogWrite(2, 128)'' @ post) = Some (''analogWrite(2, 128)'', ''2'', ''128'')"
  by (simp add: pwmPattern_def lit_def consumed_def is_space_def is_digit_def is_word_def)

lemma pwmPattern_9_300:
  "pwmPattern (''analogWrite(9, 300)'' @ post) = Some (''analogWrite(9, 300)'', ''9'', ''300'')"
  by (simp add: pwmPattern_def lit_def consumed_def is_space_def is_digit_def is_word_def)

lemma pwm_match_2_128:
  "pwm_match positionAt (i, ''analogWrite(2, 128)'', ''2'', ''128'')
     = [\<lparr>d_severity = DS_Error, d_range = range_at positionAt (int i + 12) 1,
         d_source = ''Sentinel'', d_code = ''no-pwm-support''\<rparr>]"
proof -
  have "parseInt ''2'' = Some 2" "parseInt ''128'' = Some 128"
    "indexOf ''analogWrite(2, 128)'' ''2'' = 12"
    by code_simp+
  then show ?thesis
    by (simp add: pwm_match_def Let_def num_in_def num_greater_def pwmPins_def)
qed

lemma pwm_match_9_300:
  "pwm_match positionAt (i, ''analogWrite(9, 300)'', ''9'', ''300'')
     = [\<lparr>d_severity = DS_Error, d_range = range_at positionAt (int i + 15) 3,
         d_source = ''Sentinel'', d_code = ''pwm-value-overflow''\<rparr>]"
proof -
  have "parseInt ''9'' = Some 9" "parseInt ''300'' = Some 300"
    "indexOf ''analogWrite(9, 300)'' ''300'' = 15"
    by code_simp+
  then show ?thesis
    by (simp add: pwm_match_def Let_def num_in_def num_greater_def pwmPins_def numeral_3_eq_3)
qed

text \<open>
  Claim C7: PWM validity. In every text that contains \<open>analogWrite(2, 128)\<close>, the loop of
  \<open>validatePWMUsage\<close> finds that call, and what it adds for it is one error with code
  \<open>no-pwm-support\<close> on the pin, pin 2 not being one of 3, 5, 6, 9, 10, 11. In every text that
  contains \<open>analogWrite(9, 300)\<close>, the loop finds that call, and what it adds for it is one
  error with code \<open>pwm-value-overflow\<close> on the value and nothing else: no error with code
  \<open>no-pwm-support\<close>. The diagnostics of the other calls of the text come before and after.
\<close>

theorem pwm_validity:
  "(\<exists>before after.
      exec_all pwmPattern 0 (pre @ ''analogWrite(2, 128)'' @ post)
        = before @ (length pre, ''analogWrite(2, 128)'', ''2'', ''128'') # after
      \<and> validatePWMUsage hardwareDB (pre @ ''analogWrite(2, 128)'' @ post) positionAt
        = concat (map (pwm_match positionAt) before)
          @ [\<lparr>d_severity = DS_Error, d_range = range_at positionAt (int (length pre) + 12) 1,
               d_source = ''Sentinel'', d_code = ''no-pwm-support''\<rparr>]
          @ concat (map (pwm_match positionAt) after))
   \<and> (\<exists>before after.
      exec_all pwmPattern 0 (pre @ ''analogWrite(9, 300)'' @ post)
        = before @ (length pre, ''analogWrite(9, 300)'', ''9'', ''300'') # after
      \<and> validatePWMUsage hardwareDB (pre @ ''analogWrite(9, 300)'' @ post) positionAt
        = concat (map (pwm_match positionAt) before)
          @ [\<lparr>d_severity = DS_Error, d_range = range_at positionAt (int (length pre) + 15) 3,
               d_source = ''Sentinel'', d_code = ''pwm-value-overflow''\<rparr>]
          @ concat (map (pwm_match positionAt) after))"
proof
  from pwm_finds [OF pwmPattern_2_128, of pre post]
  obtain before after where e: "exec_all pwmPattern 0 (pre @ ''analogWrite(2, 128)'' @ post)
        = before @ (length pre, ''analogWrite(2, 128)'', ''2'', ''128'') # after"
    by blast
  have "validatePWMUsage hardwareDB (pre @ ''analogWrite(2, 128)'' @ post) positionAt
        = concat (map (pwm_match positionAt) before)
          @ [\<lparr>d_severity = DS_Error, d_range = range_at positionAt (int (length pre) + 12) 1,
               d_source = ''Sentinel'', d_code = ''no-pwm-support''\<rparr>]
          @ concat (map (pwm_match positionAt) after)"
    unfolding validatePWMUsage_def e by (simp add: pwm_match_2_128)
  with e show "\<exists>before after.
      exec_all pwmPattern 0 (pre @ ''analogWrite(2, 128)'' @ post)
        = before @ (length pre, ''analogWrite(2, 128)'', ''2'', ''128'') # after
      \<and> validatePWMUsage hardwareDB (pre @ ''analogWrite(2, 128)'' @ post) positionAt
        = concat (map (pwm_match positionAt) before)
          @ [\<lparr>d_severity = DS_Error, d_range = range_at positionAt (int (length pre) + 12) 1,
               d_source = ''Sentinel'', d_code = ''no-pwm-support''\<rparr>]
          @ concat (map (pwm_match positionAt) after)"
    by blast
next
  from pwm_finds [OF pwmPattern_9_300, of pre post]
  obtain before after where e: "exec_all pwmPattern 0 (pre @ ''analogWrite(9, 300)'' @ post)
        = before @ (length pre, ''analogWrite(9, 300)'', ''9'', ''300'') # after"
    by blast
  have "validatePWMUsage hardwareDB (pre @ ''analogWrite(9, 300)'' @ post) positionAt
        = concat (map (pwm_match positionAt) before)
          @ [\<lparr>d_severity = DS_Error, d_range = range_at positionAt (int (length pre) + 15) 3,
               d_source = ''Sentinel'', d_code = ''pwm-value-overflow''\<rparr>]
          @ concat (map (pwm_match positionAt) after)"
    unfolding validatePWMUsage_def e by (simp add: pwm_match_9_300)
  with e show "\<exists>before after.
      exec_all pwmPattern 0 (pre @ ''analogWrite(9, 300)'' @ post)
        = before @ (length pre, ''analogWrite(9, 300)'', ''9'', ''300'') # after
      \<and> validatePWMUsage hardwareDB (pre @ ''analogWrite(9, 300)'' @ post) positionAt
        = concat (map (pwm_match positionAt) before)
          @ [\<lparr>d_severity = DS_Error, d_range = range_at positionAt (int (length pre) + 15) 3,
               d_source = ''Sentinel'', d_code = ''pwm-value-overflow''\<rparr>]
          @ concat (map (pwm_match positionAt) after)"
    by blast
qed

theorem pwm_validity_witness:
  "(\<exists>before after.
      exec_all pwmPattern 0 (''void loop() { '' @ ''analogWrite(2, 128)'' @ ''; }'')
        = before @ (length ''void loop() { '', ''analogWrite(2, 128)'', ''2'', ''128'') # after
      \<and> validatePWMUsage \<lparr>currentBoard = None\<rparr>
          (''void loop() { '' @ ''analogWrite(2, 128)'' @ ''; }'') single_line
        = concat (map (pwm_match single_line) before)
          @ [\<lparr>d_severity = DS_Error,
               d_range = range_at single_line (int (length ''void loop() { '') + 12) 1,
               d_source = ''Sentinel'', d_code = ''no-pwm-support''\<rparr>]
          @ concat (map (pwm_match single_line) after))
   \<and> (\<exists>before after.
      exec_all pwmPattern 0 (''void loop() { '' @ ''analogWrite(9, 300)'' @ ''; }'')
        = before @ (length ''void loop() { '', ''analogWrite(9, 300)'', ''9'', ''300'') # after
      \<and> validatePWMUsage \<lparr>currentBoard = None\<rparr>
          (''void loop() { '' @ ''analogWrite(9, 300)'' @ ''; }'') single_line
        = concat (map (pwm_match single_line) before)
          @ [\<lparr>d_severity = DS_Error,
               d_range = range_at single_line (int (length ''void loop() { '') + 15) 3,
               d_source = ''Sentinel'', d_code = ''pwm-value-overflow''\<rparr>]
          @ concat (map (pwm_match single_line) after))"
  by (rule pwm_validity)

end
